theory Spec2Isabelle
  imports Complex_Main "HOL-Library.AList" "HOL-Library.Multiset"
begin

chapter \<open>Definitions: the embedded program\<close>

section \<open>JavaScript containers\<close>

text \<open>
  A JavaScript \<^verbatim>\<open>Map\<close> iterates in insertion order: it is an association list with
  distinct keys, \<^verbatim>\<open>set\<close> is \<^const>\<open>AList.update\<close> (replace in place, else append),
  \<^verbatim>\<open>delete\<close> is \<^const>\<open>AList.delete\<close> and \<^verbatim>\<open>get\<close> is \<^const>\<open>map_of\<close>.
  A JavaScript \<^verbatim>\<open>Set\<close> is a list without duplicates, in insertion order.
\<close>

definition set_add :: "'a \<Rightarrow> 'a list \<Rightarrow> 'a list" where
  "set_add x xs = (if x \<in> set xs then xs else xs @ [x])"

definition map_has :: "('k \<times> 'v) list \<Rightarrow> 'k \<Rightarrow> bool" where
  "map_has m k = (map_of m k \<noteq> None)"

section \<open>GameTable (convex/engine/gameTable.ts)\<close>

text \<open>Documents are JSON-like values; an object is its list of properties.\<close>

datatype jsval =
    JNull
  | JBool bool
  | JNum real
  | JStr string
  | JObj "(string \<times> jsval) list"

type_synonym Id = string

datatype gt_error = InvalidId Id | InactiveId Id | InvalidModifiedId Id | ProxyOfNull

text \<open>
  The fields of the class: \<^verbatim>\<open>data: Map<Id, Doc>\<close>, \<^verbatim>\<open>modified: Set<Id>\<close>,
  \<^verbatim>\<open>deleted: Set<Id>\<close>; \<open>warnings\<close> is the log of \<^verbatim>\<open>console.warn\<close>.
  The abstract method \<^verbatim>\<open>isActive\<close> is a parameter of every operation that calls it.
\<close>

record GameTable =
  data :: "(Id \<times> jsval) list"
  modified :: "Id list"
  deleted :: "Id list"
  warnings :: "string list"

text \<open>The constructor: every row is stored under its \<^verbatim>\<open>_id\<close> (here: the first component).\<close>

definition GameTable_new :: "(Id \<times> jsval) list \<Rightarrow> GameTable" where
  "GameTable_new rows =
     \<lparr>data = fold (\<lambda>(i, row) d. AList.update i row d) rows [],
      modified = [], deleted = [], warnings = []\<rparr>"

text \<open>\<^verbatim>\<open>delete(id) { if (this.data.delete(id)) { this.deleted.add(id); } }\<close>\<close>

definition GameTable_delete :: "Id \<Rightarrow> GameTable \<Rightarrow> GameTable" where
  "GameTable_delete i g =
     (if map_has (data g) i
      then g\<lparr>data := AList.delete i (data g), deleted := set_add i (deleted g)\<rparr>
      else g)"

text \<open>
  \<^verbatim>\<open>markModified\<close>: a missing or inactive document is only warned about and the id
  is not added to \<^verbatim>\<open>modified\<close>.
\<close>

definition markModified :: "(jsval \<Rightarrow> bool) \<Rightarrow> Id \<Rightarrow> GameTable \<Rightarrow> GameTable" where
  "markModified isActive i g =
     (case map_of (data g) i of
        None \<Rightarrow> g\<lparr>warnings := warnings g @ [''Modifying deleted id '' @ i]\<rparr>
      | Some d \<Rightarrow>
          if \<not> isActive d
          then g\<lparr>warnings := warnings g @ [''Modifying inactive id '' @ i]\<rparr>
          else g\<lparr>modified := set_add i (modified g)\<rparr>)"

text \<open>
  A handle is the proxy \<^verbatim>\<open>lookup\<close> returns, or one the \<^verbatim>\<open>get\<close> trap made for a
  nested object: the id its handlers close over, and the path of property names from
  the row to the proxy's target.
\<close>

record Handle =
  hid :: Id
  hpath :: "string list"

definition GameTable_lookup ::
  "(jsval \<Rightarrow> bool) \<Rightarrow> Id \<Rightarrow> GameTable \<Rightarrow> gt_error + Handle" where
  "GameTable_lookup isActive i g =
     (case map_of (data g) i of
        None \<Rightarrow> Inl (InvalidId i)
      | Some row \<Rightarrow>
          if \<not> isActive row then Inl (InactiveId i)
          else Inr \<lparr>hid = i, hpath = []\<rparr>)"

text \<open>The object a path leads to inside a row (\<open>None\<close>: not an object of this row).\<close>

fun resolve :: "string list \<Rightarrow> jsval \<Rightarrow> jsval option" where
  "resolve [] v = Some v"
| "resolve (k # ks) (JObj fs) =
     (case map_of fs k of None \<Rightarrow> None | Some v \<Rightarrow> resolve ks v)"
| "resolve (k # ks) _ = None"

definition target :: "GameTable \<Rightarrow> Handle \<Rightarrow> jsval option" where
  "target g h =
     (case map_of (data g) (hid h) of None \<Rightarrow> None | Some row \<Rightarrow> resolve (hpath h) row)"

text \<open>
  The \<^verbatim>\<open>get\<close> trap: a value with \<^verbatim>\<open>typeof value === 'object'\<close> is wrapped in a new
  proxy with the same handlers (so the same id); \<^verbatim>\<open>typeof null\<close> is \<^verbatim>\<open>'object'\<close> too,
  and \<^verbatim>\<open>new Proxy(null, ...)\<close> throws. Other values are returned as they are; a missing
  property reads as \<^verbatim>\<open>undefined\<close>, here \<open>None\<close>.
\<close>

datatype got = Nested Handle | Plain "jsval option"

definition proxy_get :: "Handle \<Rightarrow> string \<Rightarrow> GameTable \<Rightarrow> gt_error + got" where
  "proxy_get h prop g =
     (case target g h of
        Some (JObj fs) \<Rightarrow>
          (case map_of fs prop of
             Some (JObj fs') \<Rightarrow> Inr (Nested \<lparr>hid = hid h, hpath = hpath h @ [prop]\<rparr>)
           | Some JNull \<Rightarrow> Inl ProxyOfNull
           | r \<Rightarrow> Inr (Plain r))
      | _ \<Rightarrow> Inr (Plain None))"

text \<open>
  The three writing traps. Each calls \<^verbatim>\<open>markModified(id)\<close> first and then performs the
  write on its target with \<^verbatim>\<open>Reflect\<close>. When the row was deleted from the table, or the
  path no longer leads to an object of the row, the target is an object the table does
  not hold any more: the write changes nothing in the table.

  A handle is modelled by the path from the row to its target, while the proxy of the
  code holds the target object itself. The two differ for a nested handle kept while the
  object at its path is replaced by another: the code then writes into the detached
  object, the model into the one now at the path. The \<^verbatim>\<open>modified\<close> set is the same in
  both, since \<^verbatim>\<open>markModified\<close> reads the id only.
\<close>

datatype mutation = SetProp string jsval | DeleteProp string | DefineProp string jsval

fun reflect :: "mutation \<Rightarrow> (string \<times> jsval) list \<Rightarrow> (string \<times> jsval) list" where
  "reflect (SetProp k v) fs = AList.update k v fs"
| "reflect (DeleteProp k) fs = AList.delete k fs"
| "reflect (DefineProp k v) fs = AList.update k v fs"

fun update_at :: "string list \<Rightarrow> mutation \<Rightarrow> jsval \<Rightarrow> jsval option" where
  "update_at [] m (JObj fs) = Some (JObj (reflect m fs))"
| "update_at (k # ks) m (JObj fs) =
     (case map_of fs k of
        None \<Rightarrow> None
      | Some v \<Rightarrow>
          (case update_at ks m v of
             None \<Rightarrow> None
           | Some v' \<Rightarrow> Some (JObj (AList.update k v' fs))))"
| "update_at ks m v = None"

definition reflect_on :: "Handle \<Rightarrow> mutation \<Rightarrow> GameTable \<Rightarrow> GameTable" where
  "reflect_on h m g =
     (case map_of (data g) (hid h) of
        None \<Rightarrow> g
      | Some row \<Rightarrow>
          (case update_at (hpath h) m row of
             None \<Rightarrow> g
           | Some row' \<Rightarrow> g\<lparr>data := AList.update (hid h) row' (data g)\<rparr>))"

definition proxy_set :: "(jsval \<Rightarrow> bool) \<Rightarrow> Handle \<Rightarrow> string \<Rightarrow> jsval \<Rightarrow> GameTable \<Rightarrow> GameTable" where
  "proxy_set isActive h prop v g = reflect_on h (SetProp prop v) (markModified isActive (hid h) g)"

definition proxy_deleteProperty :: "(jsval \<Rightarrow> bool) \<Rightarrow> Handle \<Rightarrow> string \<Rightarrow> GameTable \<Rightarrow> GameTable" where
  "proxy_deleteProperty isActive h prop g =
     reflect_on h (DeleteProp prop) (markModified isActive (hid h) g)"

definition proxy_defineProperty ::
  "(jsval \<Rightarrow> bool) \<Rightarrow> Handle \<Rightarrow> string \<Rightarrow> jsval \<Rightarrow> GameTable \<Rightarrow> GameTable" where
  "proxy_defineProperty isActive h prop v g =
     reflect_on h (DefineProp prop v) (markModified isActive (hid h) g)"

text \<open>Any write through a handle: the trap that the mutation triggers.\<close>

fun proxy_write :: "(jsval \<Rightarrow> bool) \<Rightarrow> Handle \<Rightarrow> mutation \<Rightarrow> GameTable \<Rightarrow> GameTable" where
  "proxy_write isActive h (SetProp k v) g = proxy_set isActive h k v g"
| "proxy_write isActive h (DeleteProp k) g = proxy_deleteProperty isActive h k g"
| "proxy_write isActive h (DefineProp k v) g = proxy_defineProperty isActive h k v g"

text \<open>
  \<^verbatim>\<open>save\<close>: the store operations issued, in order; the error thrown, if any (the sets
  are then not cleared); the table afterwards.
\<close>

datatype db_op = DbDelete Id | DbReplace Id jsval

fun save_modified :: "(Id \<times> jsval) list \<Rightarrow> Id list \<Rightarrow> db_op list \<times> gt_error option" where
  "save_modified d [] = ([], None)"
| "save_modified d (i # is) =
     (case map_of d i of
        None \<Rightarrow> ([], Some (InvalidModifiedId i))
      | Some row \<Rightarrow>
          (case save_modified d is of (ops, e) \<Rightarrow> (DbReplace i row # ops, e)))"

definition GameTable_save :: "GameTable \<Rightarrow> db_op list \<times> gt_error option \<times> GameTable" where
  "GameTable_save g =
     (case save_modified (data g) (modified g) of
        (reps, Some e) \<Rightarrow> (map DbDelete (deleted g) @ reps, Some e, g)
      | (reps, None) \<Rightarrow>
          (map DbDelete (deleted g) @ reps, None, g\<lparr>modified := [], deleted := []\<rparr>))"

definition store_deletes :: "GameTable \<Rightarrow> Id set" where
  "store_deletes g = {i. DbDelete i \<in> set (fst (GameTable_save g))}"

text \<open>Example tables: players are active while their \<^verbatim>\<open>active\<close> field is \<^verbatim>\<open>true\<close>.\<close>

definition playerActive :: "jsval \<Rightarrow> bool" where
  "playerActive doc = (resolve [''active''] doc = Some (JBool True))"

definition table_ab :: GameTable where
  "table_ab = GameTable_new [(''a'', JObj [(''active'', JBool True)]),
                             (''b'', JObj [(''active'', JBool True)])]"

definition table_p1 :: GameTable where
  "table_p1 = GameTable_new
     [(''p1'', JObj [(''active'', JBool True), (''name'', JStr ''Kira''),
                     (''pos'', JObj [(''x'', JNum 1)])])]"

definition handle_p1 :: Handle where
  "handle_p1 = \<lparr>hid = ''p1'', hpath = []\<rparr>"

section \<open>HistoricalTimeManager (src/hooks/useHistoricalTime.ts)\<close>

text \<open>
  Timestamps are JavaScript numbers; they are modelled as reals (no rounding, no NaN).
  An optional field (\<^verbatim>\<open>number | undefined\<close>) is an \<open>option\<close>.
\<close>

record ServerTimeInterval =
  startTs :: real
  endTs :: real

text \<open>The fields of the engine document that \<^verbatim>\<open>receive\<close> reads, and one it only stores.\<close>

record EngineStatus =
  currentTime :: "real option"
  lastStepTs :: "real option"
  generationNumber :: nat

record HistoricalTimeManager =
  intervals :: "ServerTimeInterval list"
  prevClientTs :: "real option"
  prevServerTs :: "real option"
  totalDuration :: real
  latestEngineStatus :: "EngineStatus option"

definition MAX_SERVER_BUFFER_AGE :: real where "MAX_SERVER_BUFFER_AGE = 1250"
definition SOFT_MAX_SERVER_BUFFER_AGE :: real where "SOFT_MAX_SERVER_BUFFER_AGE = 1000"
definition SOFT_MIN_SERVER_BUFFER_AGE :: real where "SOFT_MIN_SERVER_BUFFER_AGE = 100"

text \<open>
  JavaScript truthiness of an optional number, as \<^verbatim>\<open>!engineStatus.currentTime\<close> tests
  it: \<^verbatim>\<open>undefined\<close> and \<^verbatim>\<open>0\<close> are both falsy.
\<close>

definition truthy :: "real option \<Rightarrow> bool" where
  "truthy v = (case v of None \<Rightarrow> False | Some x \<Rightarrow> x \<noteq> 0)"

datatype htm_error = OutOfOrderStatus

definition new_HistoricalTimeManager :: HistoricalTimeManager where
  "new_HistoricalTimeManager =
     \<lparr>intervals = [], prevClientTs = None, prevServerTs = None, totalDuration = 0,
      latestEngineStatus = None\<rparr>"

text \<open>
  \<^verbatim>\<open>receive\<close>: the error thrown, if any, and the manager afterwards. The first statement
  stores the status before anything is tested, so every path keeps it.
\<close>

definition receive ::
  "EngineStatus \<Rightarrow> HistoricalTimeManager \<Rightarrow> htm_error option \<times> HistoricalTimeManager" where
  "receive engineStatus m =
     (let m1 = m\<lparr>latestEngineStatus := Some engineStatus\<rparr> in
      if \<not> truthy (currentTime engineStatus) \<or> \<not> truthy (lastStepTs engineStatus)
      then (None, m1)
      else
        (case (currentTime engineStatus, lastStepTs engineStatus) of
           (Some ct, Some ls) \<Rightarrow>
             if intervals m1 \<noteq> [] \<and> endTs (last (intervals m1)) = ct then (None, m1)
             else if intervals m1 \<noteq> [] \<and> endTs (last (intervals m1)) > ct
             then (Some OutOfOrderStatus, m1)
             else
               (let newInterval = \<lparr>startTs = ls, endTs = ct\<rparr> in
                (None, m1\<lparr>intervals := intervals m1 @ [newInterval],
                          totalDuration :=
                            totalDuration m1 + (endTs newInterval - startTs newInterval)\<rparr>))
         | _ \<Rightarrow> (None, m1)))"

text \<open>
  The \<^verbatim>\<open>for\<close> loop of \<^verbatim>\<open>historicalServerTime\<close> over the intervals from index \<open>i\<close> on:
  the first branch is the \<^verbatim>\<open>continue\<close>, the second the \<^verbatim>\<open>break\<close>; the third snaps
  \<^verbatim>\<open>serverTs\<close> forward to the interval's start and goes on with the next interval
  (there is no \<^verbatim>\<open>break\<close> there).
\<close>

fun scan_intervals ::
  "ServerTimeInterval list \<Rightarrow> nat \<Rightarrow> real \<Rightarrow> nat option \<Rightarrow> real \<times> nat option" where
  "scan_intervals [] i serverTs chosen = (serverTs, chosen)"
| "scan_intervals (snapshot # rest) i serverTs chosen =
     (if endTs snapshot < serverTs then scan_intervals rest (i + 1) serverTs chosen
      else if serverTs \<ge> startTs snapshot then (serverTs, Some i)
      else scan_intervals rest (i + 1) (startTs snapshot) (Some i))"

definition historicalServerTime ::
  "real \<Rightarrow> HistoricalTimeManager \<Rightarrow> real option \<times> HistoricalTimeManager" where
  "historicalServerTime clientNow m =
     (if length (intervals m) = 0 then (None, m)
      else if Some clientNow = prevClientTs m then (prevServerTs m, m)
      else
        (let prevClient = (case prevClientTs m of None \<Rightarrow> clientNow | Some c \<Rightarrow> c);
             prevServer =
               (case prevServerTs m of None \<Rightarrow> startTs (hd (intervals m)) | Some s \<Rightarrow> s);
             lastServerTs = endTs (last (intervals m));
             bufferDuration = lastServerTs - prevServer;
             rate = (if bufferDuration < SOFT_MIN_SERVER_BUFFER_AGE then 0.8
                     else if bufferDuration > SOFT_MAX_SERVER_BUFFER_AGE then 1.2
                     else 1);
             serverTs0 = max (prevServer + (clientNow - prevClient) * rate)
                             (lastServerTs - MAX_SERVER_BUFFER_AGE);
             (serverTs, chosen) =
               (case scan_intervals (intervals m) 0 serverTs0 None of
                  (s, None) \<Rightarrow> (endTs (last (intervals m)), length (intervals m) - 1)
                | (s, Some c) \<Rightarrow> (s, c));
             toTrim = nat (max (int chosen - 1) 0);
             m1 = (if toTrim > 0
                   then m\<lparr>totalDuration := totalDuration m
                              - (\<Sum>snapshot \<leftarrow> take toTrim (intervals m).
                                   endTs snapshot - startTs snapshot),
                          intervals := drop toTrim (intervals m)\<rparr>
                   else m)
         in (Some serverTs, m1\<lparr>prevClientTs := Some clientNow, prevServerTs := Some serverTs\<rparr>)))"

text \<open>
  Successive animation frames (\<^verbatim>\<open>updateTime\<close> in \<^verbatim>\<open>useHistoricalTime\<close>): the results of
  calling \<^verbatim>\<open>historicalServerTime\<close> with each client time in turn, on one manager.
\<close>

fun frames :: "real list \<Rightarrow> HistoricalTimeManager \<Rightarrow> real option list" where
  "frames [] m = []"
| "frames (clientNow # rest) m =
     (case historicalServerTime clientNow m of (r, m') \<Rightarrow> r # frames rest m')"

text \<open>
  A well-formed interval list whose last end is \<open>L\<close>, together with a remembered server
  time (if any) that lies between \<open>L - 1250\<close> and \<open>L\<close>: what calls of
  \<^verbatim>\<open>historicalServerTime\<close> on an unchanged list keep. Used in the proofs.
\<close>

definition htm_inv :: "real \<Rightarrow> HistoricalTimeManager \<Rightarrow> bool" where
  "htm_inv L m \<longleftrightarrow>
     intervals m \<noteq> [] \<and> endTs (last (intervals m)) = L
     \<and> list_all (\<lambda>iv. startTs iv \<le> endTs iv \<and> endTs iv \<le> L) (intervals m)
     \<and> (case prevServerTs m of
          None \<Rightarrow> prevClientTs m = None
        | Some p \<Rightarrow> prevClientTs m \<noteq> None \<and> L - MAX_SERVER_BUFFER_AGE \<le> p \<and> p \<le> L)"

text \<open>Example managers and statuses.\<close>

definition manager_two :: HistoricalTimeManager where
  "manager_two =
     \<lparr>intervals = [\<lparr>startTs = 0, endTs = 1000\<rparr>, \<lparr>startTs = 1000, endTs = 2000\<rparr>],
      prevClientTs = None, prevServerTs = None, totalDuration = 2000,
      latestEngineStatus = None\<rparr>"

definition manager_one :: HistoricalTimeManager where
  "manager_one =
     \<lparr>intervals = [\<lparr>startTs = 3, endTs = 5\<rparr>],
      prevClientTs = None, prevServerTs = None, totalDuration = 2,
      latestEngineStatus = None\<rparr>"

definition status_3_5 :: EngineStatus where
  "status_3_5 = \<lparr>currentTime = Some 5, lastStepTs = Some 3, generationNumber = 1\<rparr>"

definition status_0_5 :: EngineStatus where
  "status_0_5 = \<lparr>currentTime = Some 5, lastStepTs = Some 0, generationNumber = 1\<rparr>"

definition status_5_9 :: EngineStatus where
  "status_5_9 = \<lparr>currentTime = Some 9, lastStepTs = Some 5, generationNumber = 1\<rparr>"

text \<open>
  A manager after \<^verbatim>\<open>receive\<close>, a call \<^verbatim>\<open>historicalServerTime(100)\<close> and another \<^verbatim>\<open>receive\<close>:
  it remembers the client time 100 and the server time computed for it on the list that
  it held then.
\<close>

definition status_1000_2000 :: EngineStatus where
  "status_1000_2000 = \<lparr>currentTime = Some 2000, lastStepTs = Some 1000, generationNumber = 1\<rparr>"

definition status_2000_6000 :: EngineStatus where
  "status_2000_6000 = \<lparr>currentTime = Some 6000, lastStepTs = Some 2000, generationNumber = 2\<rparr>"

definition manager_stale :: HistoricalTimeManager where
  "manager_stale =
     snd (receive status_2000_6000
       (snd (historicalServerTime 100
         (snd (receive status_1000_2000 new_HistoricalTimeManager)))))"

section \<open>Geometry (convex/util/geometry.ts, convex/util/types.ts)\<close>

text \<open>
  Coordinates and times are JavaScript numbers, modelled as reals. The fields \<^verbatim>\<open>x\<close>,
  \<^verbatim>\<open>y\<close> and \<^verbatim>\<open>t\<close> of the source are \<open>px\<close>, \<open>py\<close> and \<open>pt\<close> here.
\<close>

record Point =
  px :: real
  py :: real

record Vector =
  dx :: real
  dy :: real

record PathPoint =
  position :: Point
  facing :: Vector
  pt :: real

type_synonym Path = "PathPoint list"

definition distance :: "Point \<Rightarrow> Point \<Rightarrow> real" where
  "distance p0 p1 =
     (let ddx = px p0 - px p1; ddy = py p0 - py p1 in sqrt (ddx * ddx + ddy * ddy))"

definition pointsEqual :: "Point \<Rightarrow> Point \<Rightarrow> bool" where
  "pointsEqual p0 p1 \<longleftrightarrow> px p0 = px p1 \<and> py p0 = py p1"

definition manhattanDistance :: "Point \<Rightarrow> Point \<Rightarrow> real" where
  "manhattanDistance p0 p1 = \<bar>px p0 - px p1\<bar> + \<bar>py p0 - py p1\<bar>"

datatype geo_error = InvalidPath | TimestampChecksNotExhaustive

definition pathOverlaps :: "Path \<Rightarrow> real \<Rightarrow> geo_error + bool" where
  "pathOverlaps path time =
     (if length path < 2 then Inl InvalidPath
      else Inr (pt (path ! 0) \<le> time \<and> time \<le> pt (last path)))"

record PathPosition =
  pp_position :: Point
  pp_facing :: Vector
  velocity :: real

text \<open>
  The \<^verbatim>\<open>for\<close> loop of \<^verbatim>\<open>pathPosition\<close> over the segments \<open>path[i], path[i + 1]\<close>, and the
  \<^verbatim>\<open>throw\<close> after it. (A segment of duration \<open>0\<close> divides by zero: \<^verbatim>\<open>NaN\<close> or \<^verbatim>\<open>Infinity\<close>
  in JavaScript, \<open>0\<close> in HOL; paths with strictly increasing times have none.)
\<close>

fun segments :: "Path \<Rightarrow> real \<Rightarrow> geo_error + PathPosition" where
  "segments (segmentStart # segmentEnd # rest) time =
     (if pt segmentStart \<le> time \<and> time \<le> pt segmentEnd
      then
        (let interp = (time - pt segmentStart) / (pt segmentEnd - pt segmentStart) in
         Inr \<lparr>pp_position =
                \<lparr>px = px (position segmentStart)
                        + interp * (px (position segmentEnd) - px (position segmentStart)),
                 py = py (position segmentStart)
                        + interp * (py (position segmentEnd) - py (position segmentStart))\<rparr>,
              pp_facing = facing segmentStart,
              velocity = distance (position segmentStart) (position segmentEnd)
                           / (pt segmentEnd - pt segmentStart)\<rparr>)
      else segments (segmentEnd # rest) time)"
| "segments path time = Inl TimestampChecksNotExhaustive"

definition pathPosition :: "Path \<Rightarrow> real \<Rightarrow> geo_error + PathPosition" where
  "pathPosition path time =
     (if length path < 2 then Inl InvalidPath
      else
        (let first = path ! 0 in
         if time < pt first
         then Inr \<lparr>pp_position = position first, pp_facing = facing first, velocity = 0\<rparr>
         else
           (let lst = path ! (length path - 1) in
            if pt lst < time
            then Inr \<lparr>pp_position = position lst, pp_facing = facing lst, velocity = 0\<rparr>
            else segments path time)))"

definition path_L :: Path where
  "path_L =
     [\<lparr>position = \<lparr>px = 0, py = 0\<rparr>, facing = \<lparr>dx = 1, dy = 0\<rparr>, pt = 0\<rparr>,
      \<lparr>position = \<lparr>px = 3, py = 0\<rparr>, facing = \<lparr>dx = 0, dy = 1\<rparr>, pt = 6\<rparr>,
      \<lparr>position = \<lparr>px = 3, py = 4\<rparr>, facing = \<lparr>dx = 0, dy = 1\<rparr>, pt = 10\<rparr>]"

section \<open>retryWithBackoff and chatCompletion (convex/util/openai.ts)\<close>

text \<open>
  What an invocation of the wrapped operation can throw: an object with the fields
  \<^verbatim>\<open>retry\<close> and \<^verbatim>\<open>error\<close> (a \<^verbatim>\<open>RetryError\<close>), or any other value, which has neither
  field (\<^verbatim>\<open>retryError.retry\<close> and \<^verbatim>\<open>retryError.error\<close> are then \<^verbatim>\<open>undefined\<close>).
  A thrown \<^verbatim>\<open>null\<close> or \<^verbatim>\<open>undefined\<close> is not modelled: reading a field of it raises a
  \<^verbatim>\<open>TypeError\<close>, which the code propagates in place of the thrown value, with no
  further invocation.
\<close>

datatype 'e thrown = RetryError bool 'e | Other 'e

fun retry :: "'e thrown \<Rightarrow> bool" where
  "retry (RetryError r e) = r"
| "retry (Other e) = False"

text \<open>\<^verbatim>\<open>if (retryError.error) throw retryError.error; else throw e;\<close>\<close>

fun rethrown :: "'e thrown \<Rightarrow> 'e" where
  "rethrown (RetryError r e) = e"
| "rethrown (Other e) = e"

datatype ('e, 'a) attempt = Returns 'a | Throws "'e thrown"

datatype 'e retry_error = Propagated 'e | Unreachable

record 'a retry_result =
  retries :: nat
  result :: 'a

definition RETRY_BACKOFF :: "nat list" where
  "RETRY_BACKOFF = [1000, 10000, 20000]"

text \<open>
  The wrapped operation is effectful: \<open>fn k\<close> is what its invocation number \<open>k\<close>
  (counting from 0) does. The loop threads the number of invocations made so far and
  the base delays waited (the random jitter and the measured \<^verbatim>\<open>ms\<close> are left out).
\<close>

function retry_loop ::
  "(nat \<Rightarrow> ('e, 'a) attempt) \<Rightarrow> nat \<Rightarrow> nat \<Rightarrow> nat list
     \<Rightarrow> ('e retry_error + 'a retry_result) \<times> nat \<times> nat list" where
  "retry_loop fn i calls waits =
     (if i \<le> length RETRY_BACKOFF then
        (case fn calls of
           Returns r \<Rightarrow> (Inr \<lparr>retries = i, result = r\<rparr>, calls + 1, waits)
         | Throws e \<Rightarrow>
             if i < length RETRY_BACKOFF \<and> retry e
             then retry_loop fn (i + 1) (calls + 1) (waits @ [RETRY_BACKOFF ! i])
             else (Inl (Propagated (rethrown e)), calls + 1, waits))
      else (Inl Unreachable, calls, waits))"
  by pat_completeness auto
termination
  by (relation "measure (\<lambda>(fn, i, calls, waits). Suc (length RETRY_BACKOFF) - i)") auto

definition retryWithBackoff ::
  "(nat \<Rightarrow> ('e, 'a) attempt) \<Rightarrow> ('e retry_error + 'a retry_result) \<times> nat \<times> nat list" where
  "retryWithBackoff fn = retry_loop fn 0 0 []"

text \<open>
  One attempt of \<^verbatim>\<open>chatCompletion\<close>, given the response \<^verbatim>\<open>fetch\<close> produced: its \<^verbatim>\<open>ok\<close>
  flag, its status and the content extracted from its body (\<open>None\<close>: \<^verbatim>\<open>undefined\<close>).
\<close>

record HttpResponse =
  ok :: bool
  status :: nat
  content :: "string option"

datatype openai_error = ChatCompletionFailed nat | UnexpectedResult

definition chatCompletion_attempt :: "HttpResponse \<Rightarrow> (openai_error, string) attempt" where
  "chatCompletion_attempt response =
     (if \<not> ok response
      then Throws (RetryError (status response = 429 \<or> status response \<ge> 500)
                              (ChatCompletionFailed (status response)))
      else (case content response of
              None \<Rightarrow> Throws (Other UnexpectedResult)
            | Some c \<Rightarrow> Returns c))"

text \<open>An operation that is rate limited twice and then answers.\<close>

definition flaky :: "nat \<Rightarrow> (openai_error, string) attempt" where
  "flaky k = chatCompletion_attempt
     (if k < 2 then \<lparr>ok = False, status = 429, content = None\<rparr>
      else \<lparr>ok = True, status = 200, content = Some ''hi''\<rparr>)"

definition forbidden :: "nat \<Rightarrow> (openai_error, string) attempt" where
  "forbidden k = chatCompletion_attempt \<lparr>ok = False, status = 403, content = None\<rparr>"

section \<open>ChatCompletionContent.read (convex/util/openai.ts)\<close>

text \<open>
  Strings are lists of characters. \<^verbatim>\<open>s.indexOf(w)\<close> is the first index at which \<open>w\<close>
  occurs in \<open>s\<close> (\<open>None\<close> for \<^verbatim>\<open>-1\<close>); the empty string occurs at index 0.
\<close>

fun indexOf :: "string \<Rightarrow> string \<Rightarrow> nat option" where
  "indexOf [] w = (if w = [] then Some 0 else None)"
| "indexOf (c # s) w =
     (if take (length w) (c # s) = w then Some 0 else map_option Suc (indexOf s w))"

text \<open>
  \<^verbatim>\<open>suffixOverlapsPrefix\<close>: the loop over \<open>i = 1, ..., min(s1.length, s2.length)\<close> that
  returns \<^verbatim>\<open>true\<close> at the first \<open>i\<close> for which the last \<open>i\<close> characters of \<open>s1\<close> are the
  first \<open>i\<close> characters of \<open>s2\<close>.
\<close>

definition suffixOverlapsPrefix :: "string \<Rightarrow> string \<Rightarrow> bool" where
  "suffixOverlapsPrefix s1 s2 =
     list_ex (\<lambda>i. drop (length s1 - i) s1 = take i s2)
       [1 ..< Suc (min (length s1) (length s2))]"

text \<open>
  The inner loop of \<^verbatim>\<open>read\<close> over the stop words, in their order: it ends the whole
  generator at the first stop word that occurs in the fragment (\<open>Stop idx\<close>), and
  otherwise reports whether some stop word overlaps the fragment's end.
\<close>

datatype scan = Stop nat | Overlap bool

fun scan_stopWords :: "string list \<Rightarrow> string \<Rightarrow> bool \<Rightarrow> scan" where
  "scan_stopWords [] lastFragment hasOverlap = Overlap hasOverlap"
| "scan_stopWords (stopWord # rest) lastFragment hasOverlap =
     (case indexOf lastFragment stopWord of
        Some idx \<Rightarrow> Stop idx
      | None \<Rightarrow>
          scan_stopWords rest lastFragment
            (if suffixOverlapsPrefix lastFragment stopWord then True else hasOverlap))"

text \<open>
  \<^verbatim>\<open>read\<close> over the chunks that \<^verbatim>\<open>readInner\<close> yields: the list of the chunks it yields.
\<close>

fun read_loop :: "string list \<Rightarrow> string list \<Rightarrow> string \<Rightarrow> string list" where
  "read_loop stopWords [] lastFragment = [lastFragment]"
| "read_loop stopWords (chunk # rest) lastFragment =
     (case scan_stopWords stopWords (lastFragment @ chunk) False of
        Stop idx \<Rightarrow> [take idx (lastFragment @ chunk)]
      | Overlap True \<Rightarrow> read_loop stopWords rest (lastFragment @ chunk)
      | Overlap False \<Rightarrow> (lastFragment @ chunk) # read_loop stopWords rest [])"

definition read :: "string list \<Rightarrow> string list \<Rightarrow> string list" where
  "read stopWords chunks = read_loop stopWords chunks []"

definition readAll :: "string list \<Rightarrow> string list \<Rightarrow> string" where
  "readAll stopWords chunks = concat (read stopWords chunks)"

text \<open>
  The specification's wording, for comparison: the content truncated immediately
  before the first occurrence of any stop word.
\<close>

fun first_stop_spec :: "string list \<Rightarrow> string \<Rightarrow> nat option" where
  "first_stop_spec stopWords [] = (if [] \<in> set stopWords then Some 0 else None)"
| "first_stop_spec stopWords (c # s) =
     (if list_ex (\<lambda>w. take (length w) (c # s) = w) stopWords then Some 0
      else map_option Suc (first_stop_spec stopWords s))"

definition truncated_spec :: "string list \<Rightarrow> string \<Rightarrow> string" where
  "truncated_spec stopWords whole =
     (case first_stop_spec stopWords whole of None \<Rightarrow> whole | Some i \<Rightarrow> take i whole)"

section \<open>MinHeap (convex/util/minheap.ts)\<close>

text \<open>
  The array \<^verbatim>\<open>tree\<close> is a list of slots; \<open>None\<close> is \<^verbatim>\<open>null\<close> or \<^verbatim>\<open>undefined\<close> (slot 0 holds
  \<^verbatim>\<open>null\<close>). Reading past the end gives \<^verbatim>\<open>undefined\<close>; writing past the end extends the
  array, filling the gap with \<^verbatim>\<open>undefined\<close>.
\<close>

definition js_get :: "'a option list \<Rightarrow> nat \<Rightarrow> 'a option" where
  "js_get xs i = (if i < length xs then xs ! i else None)"

definition js_set :: "'a option list \<Rightarrow> nat \<Rightarrow> 'a option \<Rightarrow> 'a option list" where
  "js_set xs i v = (xs @ replicate (Suc i - length xs) None)[i := v]"

text \<open>
  The comparator is a function on elements. Calling it on an empty slot is outside
  its type (the comparator of \<^verbatim>\<open>findRoute\<close> would throw reading \<^verbatim>\<open>.cost\<close>): the
  operations return \<open>None\<close> then.
\<close>

definition compare_slots :: "('a \<Rightarrow> 'a \<Rightarrow> bool) \<Rightarrow> 'a option \<Rightarrow> 'a option \<Rightarrow> bool option" where
  "compare_slots compare a b =
     (case a of None \<Rightarrow> None
      | Some x \<Rightarrow> (case b of None \<Rightarrow> None | Some y \<Rightarrow> Some (compare x y)))"

record 'a MinHeap =
  tree :: "'a option list"
  endIndex :: nat

definition new_MinHeap :: "'a MinHeap" where
  "new_MinHeap = \<lparr>tree = [None], endIndex = 1\<rparr>"

definition peek :: "'a MinHeap \<Rightarrow> 'a option" where
  "peek h = js_get (tree h) 1"

definition heap_length :: "'a MinHeap \<Rightarrow> nat" where
  "heap_length h = endIndex h - 1"

text \<open>The \<^verbatim>\<open>while\<close> loop of \<^verbatim>\<open>push\<close>: the tree and \<^verbatim>\<open>destinationIndex\<close> when it ends.\<close>

function push_loop ::
  "('a \<Rightarrow> 'a \<Rightarrow> bool) \<Rightarrow> 'a \<Rightarrow> 'a option list \<Rightarrow> nat \<Rightarrow> ('a option list \<times> nat) option" where
  "push_loop compare newValue tr destinationIndex =
     (let nextToCheck = destinationIndex div 2 in
      if nextToCheck > 0 then
        (let existing = js_get tr nextToCheck in
         case compare_slots compare (Some newValue) existing of
           None \<Rightarrow> None
         | Some True \<Rightarrow> Some (tr, destinationIndex)
         | Some False \<Rightarrow>
             push_loop compare newValue (js_set tr destinationIndex existing) nextToCheck)
      else Some (tr, destinationIndex))"
  by pat_completeness auto
termination
  by (relation "measure (\<lambda>(compare, newValue, tr, destinationIndex). destinationIndex)") auto

declare push_loop.simps [simp del]

definition push :: "('a \<Rightarrow> 'a \<Rightarrow> bool) \<Rightarrow> 'a \<Rightarrow> 'a MinHeap \<Rightarrow> 'a MinHeap option" where
  "push compare newValue h =
     (case push_loop compare newValue (tree h) (endIndex h) of
        None \<Rightarrow> None
      | Some (tr, destinationIndex) \<Rightarrow>
          Some \<lparr>tree = js_set tr destinationIndex (Some newValue), endIndex = endIndex h + 1\<rparr>)"

text \<open>
  The \<^verbatim>\<open>while\<close> loop of \<^verbatim>\<open>pop\<close>. \<^verbatim>\<open>destinationIndex\<close> starts at 1 and moves to a child
  index, so it is never 0; the first test is there for totality (the source would
  compare the \<^verbatim>\<open>null\<close> of slot 0).
\<close>

function pop_loop ::
  "('a \<Rightarrow> 'a \<Rightarrow> bool) \<Rightarrow> 'a option \<Rightarrow> nat \<Rightarrow> 'a option list \<Rightarrow> nat
     \<Rightarrow> ('a option list \<times> nat) option" where
  "pop_loop compare lastValue endIdx tr destinationIndex =
     (if destinationIndex = 0 then None
      else
        (let nextToCheck = destinationIndex * 2 in
         if nextToCheck < endIdx then
           (case (if nextToCheck + 1 \<le> endIdx
                  then compare_slots compare (js_get tr nextToCheck) (js_get tr (nextToCheck + 1))
                  else Some False) of
              None \<Rightarrow> None
            | Some right \<Rightarrow>
                (let nextToCheck' = (if right then nextToCheck + 1 else nextToCheck);
                     existing = js_get tr nextToCheck' in
                 case compare_slots compare existing lastValue of
                   None \<Rightarrow> None
                 | Some True \<Rightarrow> Some (tr, destinationIndex)
                 | Some False \<Rightarrow>
                     pop_loop compare lastValue endIdx (js_set tr destinationIndex existing)
                       nextToCheck'))
         else Some (tr, destinationIndex)))"
  by pat_completeness auto
termination
  by (relation "measure (\<lambda>(compare, lastValue, endIdx, tr, destinationIndex).
        endIdx - destinationIndex)") auto

declare pop_loop.simps [simp del]

text \<open>
  \<^verbatim>\<open>pop\<close>: the value returned (\<open>None\<close>: \<^verbatim>\<open>undefined\<close>) and the heap afterwards; the outer
  \<open>None\<close> is the comparator called on an empty slot.
\<close>

definition pop :: "('a \<Rightarrow> 'a \<Rightarrow> bool) \<Rightarrow> 'a MinHeap \<Rightarrow> ('a option \<times> 'a MinHeap) option" where
  "pop compare h =
     (if endIndex h = 1 then Some (None, h)
      else
        (let endIdx = endIndex h - 1;
             val = js_get (tree h) 1;
             lastValue = js_get (tree h) endIdx in
         case pop_loop compare lastValue endIdx (tree h) 1 of
           None \<Rightarrow> None
         | Some (tr, destinationIndex) \<Rightarrow>
             Some (val, \<lparr>tree = js_set tr destinationIndex lastValue, endIndex = endIdx\<rparr>)))"

text \<open>A sequence of pushes, and repeated pops collecting the returned values.\<close>

fun push_all :: "('a \<Rightarrow> 'a \<Rightarrow> bool) \<Rightarrow> 'a list \<Rightarrow> 'a MinHeap \<Rightarrow> 'a MinHeap option" where
  "push_all compare [] h = Some h"
| "push_all compare (v # vs) h =
     (case push compare v h of None \<Rightarrow> None | Some h' \<Rightarrow> push_all compare vs h')"

fun pop_n :: "('a \<Rightarrow> 'a \<Rightarrow> bool) \<Rightarrow> nat \<Rightarrow> 'a MinHeap \<Rightarrow> ('a option list \<times> 'a MinHeap) option" where
  "pop_n compare 0 h = Some ([], h)"
| "pop_n compare (Suc n) h =
     (case pop compare h of
        None \<Rightarrow> None
      | Some (v, h') \<Rightarrow>
          (case pop_n compare n h' of None \<Rightarrow> None | Some (vs, h'') \<Rightarrow> Some (v # vs, h'')))"

section \<open>findRoute (convex/game/movement.ts)\<close>

text \<open>
  The parts of the game that \<^verbatim>\<open>findRoute\<close> reads. \<open>allPlayers\<close> is what
  \<^verbatim>\<open>game.players.allDocuments()\<close> returns. \<^verbatim>\<open>game.locations\<close> is a \<^verbatim>\<open>HistoricalTable\<close>,
  whose source is not part of the repository files at hand: its \<^verbatim>\<open>lookup(now, id)\<close> is
  the parameter \<open>lookupLocation\<close> (\<open>None\<close>: it throws). \<^verbatim>\<open>movementSpeed\<close> (from
  \<^verbatim>\<open>data/characters\<close>) is a parameter too.
\<close>

record PlayerDoc =
  player_id :: Id
  locationId :: Id

record LocationDoc =
  loc_x :: real
  loc_y :: real
  loc_dx :: real
  loc_dy :: real

record MapDoc =
  width :: real
  height :: real
  objectTiles :: "int list list"

record AiTown =
  allPlayers :: "PlayerDoc list"
  lookupLocation :: "real \<Rightarrow> Id \<Rightarrow> LocationDoc option"
  gameMap :: MapDoc

definition COLLISION_THRESHOLD :: real where
  "COLLISION_THRESHOLD = 0.75"

datatype route_error = LocationLookupFailed | TileRowUndefined | ComparatorOnEmptySlot

datatype PathCandidate =
  PathCandidate (c_position: Point) (c_facing: Vector) (c_t: real) (c_length: real)
    (c_cost: real) (c_prev: "PathCandidate option")

text \<open>
  \<^verbatim>\<open>map.objectTiles[Math.floor(y)][Math.floor(x)] !== -1\<close> for a position inside the
  bounds: a missing row throws, a missing tile is \<^verbatim>\<open>undefined\<close>, which differs from -1.
\<close>

definition tile_blocked :: "MapDoc \<Rightarrow> Point \<Rightarrow> route_error + bool" where
  "tile_blocked m pos =
     (let row = nat \<lfloor>py pos\<rfloor>; col = nat \<lfloor>px pos\<rfloor> in
      if row < length (objectTiles m)
      then Inr (if col < length (objectTiles m ! row)
                then objectTiles m ! row ! col \<noteq> - 1 else True)
      else Inl TileRowUndefined)"

text \<open>\<^verbatim>\<open>blockedWithPositions\<close> (the \<^verbatim>\<open>NaN\<close> test is left out: reals have no \<^verbatim>\<open>NaN\<close>).\<close>

definition blockedWithPositions ::
  "Point \<Rightarrow> Point list \<Rightarrow> MapDoc \<Rightarrow> route_error + string option" where
  "blockedWithPositions pos otherPositions m =
     (if px pos < 0 \<or> py pos < 0
         \<or> px pos \<ge> width m \<or> py pos \<ge> height m
      then Inr (Some ''out of bounds'')
      else
        (case tile_blocked m pos of
           Inl e \<Rightarrow> Inl e
         | Inr True \<Rightarrow> Inr (Some ''world blocked'')
         | Inr False \<Rightarrow>
             if list_ex (\<lambda>other. distance other pos < COLLISION_THRESHOLD)
                  otherPositions
             then Inr (Some ''player'')
             else Inr None))"

text \<open>The \<^verbatim>\<open>map\<close> over the other players in \<^verbatim>\<open>blocked\<close>: a failing lookup throws.\<close>

fun lookup_all :: "AiTown \<Rightarrow> real \<Rightarrow> PlayerDoc list \<Rightarrow> route_error + Point list" where
  "lookup_all game now [] = Inr []"
| "lookup_all game now (p # ps) =
     (case lookupLocation game now (locationId p) of
        None \<Rightarrow> Inl LocationLookupFailed
      | Some loc \<Rightarrow>
          (case lookup_all game now ps of
             Inl e \<Rightarrow> Inl e
           | Inr rest \<Rightarrow> Inr (\<lparr>px = loc_x loc, py = loc_y loc\<rparr> # rest)))"

definition blocked :: "AiTown \<Rightarrow> real \<Rightarrow> Point \<Rightarrow> Id option \<Rightarrow> route_error + string option" where
  "blocked game now pos playerId =
     (case lookup_all game now (filter (\<lambda>p. Some (player_id p) \<noteq> playerId) (allPlayers game)) of
        Inl e \<Rightarrow> Inl e
      | Inr otherPositions \<Rightarrow> blockedWithPositions pos otherPositions (gameMap game))"

text \<open>
  \<^verbatim>\<open>minDistances[y][x]\<close>: a sparse two-dimensional array, indexed by the numbers \<open>y\<close> and
  \<open>x\<close> (which need not be integers): a map from \<open>(y, x)\<close>.
\<close>

type_synonym minDistances = "real \<times> real \<Rightarrow> PathCandidate option"

text \<open>The neighbours that \<^verbatim>\<open>explore\<close> lists for a position, in the order it pushes them.\<close>

definition neighbors :: "Point \<Rightarrow> (Point \<times> Vector) list" where
  "neighbors p =
     (let x = px p; y = py p in
      (if x \<noteq> of_int \<lfloor>x\<rfloor>
       then [(\<lparr>px = of_int \<lfloor>x\<rfloor>, py = y\<rparr>, \<lparr>dx = - 1, dy = 0\<rparr>),
             (\<lparr>px = of_int \<lfloor>x\<rfloor> + 1, py = y\<rparr>, \<lparr>dx = 1, dy = 0\<rparr>)]
       else [])
      @ (if y \<noteq> of_int \<lfloor>y\<rfloor>
         then [(\<lparr>px = x, py = of_int \<lfloor>y\<rfloor>\<rparr>, \<lparr>dx = 0, dy = - 1\<rparr>),
               (\<lparr>px = x, py = of_int \<lfloor>y\<rfloor> + 1\<rparr>, \<lparr>dx = 0, dy = 1\<rparr>)]
         else [])
      @ (if x = of_int \<lfloor>x\<rfloor> \<and> y = of_int \<lfloor>y\<rfloor>
         then [(\<lparr>px = x + 1, py = y\<rparr>, \<lparr>dx = 1, dy = 0\<rparr>),
               (\<lparr>px = x - 1, py = y\<rparr>, \<lparr>dx = - 1, dy = 0\<rparr>),
               (\<lparr>px = x, py = y + 1\<rparr>, \<lparr>dx = 0, dy = 1\<rparr>),
               (\<lparr>px = x, py = y - 1\<rparr>, \<lparr>dx = 0, dy = - 1\<rparr>)]
         else []))"

text \<open>
  The \<^verbatim>\<open>for\<close> loop of \<^verbatim>\<open>explore\<close> over the neighbours: the candidates pushed to \<^verbatim>\<open>next\<close>
  and the updated \<^verbatim>\<open>minDistances\<close>. The blocked test is made with the query time \<open>now\<close>.
\<close>

fun explore_loop ::
  "AiTown \<Rightarrow> real \<Rightarrow> PlayerDoc \<Rightarrow> Point \<Rightarrow> real \<Rightarrow> PathCandidate
     \<Rightarrow> (Point \<times> Vector) list \<Rightarrow> minDistances
     \<Rightarrow> route_error + (PathCandidate list \<times> minDistances)" where
  "explore_loop game now player destination movementSpeed current [] minD = Inr ([], minD)"
| "explore_loop game now player destination movementSpeed current ((pos, fac) # rest) minD =
     (let segmentLength = distance (c_position current) pos;
          len = c_length current + segmentLength in
      case blocked game now pos (Some (player_id player)) of
        Inl e \<Rightarrow> Inl e
      | Inr (Some reason) \<Rightarrow>
          explore_loop game now player destination movementSpeed current rest minD
      | Inr None \<Rightarrow>
          (let remaining = manhattanDistance pos destination;
               path = PathCandidate pos fac
                        (c_t current + (segmentLength / movementSpeed) * 1000)
                        len (len + remaining) (Some current)
           in case minD (py pos, px pos) of
                Some existingMin \<Rightarrow>
                  if c_cost existingMin \<le> c_cost path
                  then explore_loop game now player destination movementSpeed current rest minD
                  else
                    (case explore_loop game now player destination movementSpeed current rest
                            (minD((py pos, px pos) \<mapsto> path)) of
                       Inl e \<Rightarrow> Inl e
                     | Inr (next, minD') \<Rightarrow> Inr (path # next, minD'))
              | None \<Rightarrow>
                  (case explore_loop game now player destination movementSpeed current rest
                          (minD((py pos, px pos) \<mapsto> path)) of
                     Inl e \<Rightarrow> Inl e
                   | Inr (next, minD') \<Rightarrow> Inr (path # next, minD'))))"

definition explore ::
  "AiTown \<Rightarrow> real \<Rightarrow> PlayerDoc \<Rightarrow> Point \<Rightarrow> real \<Rightarrow> PathCandidate \<Rightarrow> minDistances
     \<Rightarrow> route_error + (PathCandidate list \<times> minDistances)" where
  "explore game now player destination movementSpeed current minD =
     explore_loop game now player destination movementSpeed current
       (neighbors (c_position current)) minD"

text \<open>The comparator of the heap: \<^verbatim>\<open>(p0, p1) => p0.cost > p1.cost\<close>.\<close>

definition costlier :: "PathCandidate \<Rightarrow> PathCandidate \<Rightarrow> bool" where
  "costlier p0 p1 \<longleftrightarrow> c_cost p0 > c_cost p1"

text \<open>
  The main \<^verbatim>\<open>while (current)\<close> loop. It may run long: \<open>fuel\<close> bounds the number of times
  the loop condition is tested, and \<open>None\<close> means the fuel ran out. The result is
  \<^verbatim>\<open>current\<close> and \<^verbatim>\<open>bestCandidate\<close> when the loop ends. \<open>visited\<close> is a ghost variable, not
  in the source: the candidates that were \<^verbatim>\<open>current\<close> in an iteration that did not
  \<^verbatim>\<open>break\<close>, in order.
\<close>

fun findRoute_loop ::
  "nat \<Rightarrow> AiTown \<Rightarrow> real \<Rightarrow> PlayerDoc \<Rightarrow> Point \<Rightarrow> real
     \<Rightarrow> PathCandidate option \<Rightarrow> PathCandidate \<Rightarrow> PathCandidate MinHeap \<Rightarrow> minDistances
     \<Rightarrow> PathCandidate list
     \<Rightarrow> (route_error + (PathCandidate option \<times> PathCandidate \<times> PathCandidate list)) option"
  where
  "findRoute_loop 0 game now player destination movementSpeed current bestCandidate minheap
     minD visited = None"
| "findRoute_loop (Suc fuel) game now player destination movementSpeed None bestCandidate
     minheap minD visited = Some (Inr (None, bestCandidate, visited))"
| "findRoute_loop (Suc fuel) game now player destination movementSpeed (Some current)
     bestCandidate minheap minD visited =
     (if pointsEqual (c_position current) destination
      then Some (Inr (Some current, bestCandidate, visited))
      else
        (let bestCandidate' =
               (if manhattanDistance (c_position current) destination
                     < manhattanDistance (c_position bestCandidate) destination
                then current else bestCandidate)
         in case explore game now player destination movementSpeed current minD of
              Inl e \<Rightarrow> Some (Inl e)
            | Inr (candidates, minD') \<Rightarrow>
                (case push_all costlier candidates minheap of
                   None \<Rightarrow> Some (Inl ComparatorOnEmptySlot)
                 | Some minheap' \<Rightarrow>
                     (case pop costlier minheap' of
                        None \<Rightarrow> Some (Inl ComparatorOnEmptySlot)
                      | Some (next, minheap'') \<Rightarrow>
                          findRoute_loop fuel game now player destination movementSpeed next
                            bestCandidate' minheap'' minD' (visited @ [current])))))"

text \<open>
  The loop that builds \<^verbatim>\<open>densePath\<close> from a candidate back to the start: every entry
  but the first pushed carries the facing of the candidate pushed before it.
\<close>

fun dense_from :: "PathCandidate \<Rightarrow> Vector \<Rightarrow> Path" where
  "dense_from (PathCandidate pos fac t len cost prev) facing0 =
     \<lparr>position = pos, facing = facing0, pt = t\<rparr>
       # (case prev of None \<Rightarrow> [] | Some p \<Rightarrow> dense_from p fac)"

definition densePath :: "PathCandidate \<Rightarrow> Path" where
  "densePath current = rev (dense_from current (c_facing current))"

record Route =
  route_path :: Path
  newDestination :: "Point option"

definition startCandidate :: "LocationDoc \<Rightarrow> real \<Rightarrow> Point \<Rightarrow> PathCandidate" where
  "startCandidate startingLocation now destination =
     (let startingPosition = \<lparr>px = loc_x startingLocation, py = loc_y startingLocation\<rparr> in
      PathCandidate startingPosition
        \<lparr>dx = loc_dx startingLocation, dy = loc_dy startingLocation\<rparr>
        now 0 (manhattanDistance startingPosition destination) None)"

text \<open>
  \<^verbatim>\<open>findRoute\<close>: \<open>None\<close> when the fuel ran out; otherwise the error thrown or the value
  returned, where \<open>Inr None\<close> is \<^verbatim>\<open>null\<close>.
\<close>

definition findRoute ::
  "nat \<Rightarrow> AiTown \<Rightarrow> real \<Rightarrow> PlayerDoc \<Rightarrow> Point \<Rightarrow> real \<Rightarrow> (route_error + Route option) option"
  where
  "findRoute fuel game now player destination movementSpeed =
     (case lookupLocation game now (locationId player) of
        None \<Rightarrow> Some (Inl LocationLookupFailed)
      | Some startingLocation \<Rightarrow>
          (let current = startCandidate startingLocation now destination in
           case findRoute_loop fuel game now player destination movementSpeed (Some current)
                  current new_MinHeap Map.empty [] of
             None \<Rightarrow> None
           | Some (Inl e) \<Rightarrow> Some (Inl e)
           | Some (Inr (None, bestCandidate, visited)) \<Rightarrow>
               if c_length bestCandidate = 0 then Some (Inr None)
               else Some (Inr (Some \<lparr>route_path = densePath bestCandidate,
                                      newDestination = Some (c_position bestCandidate)\<rparr>))
           | Some (Inr (Some reached, bestCandidate, visited)) \<Rightarrow>
               Some (Inr (Some \<lparr>route_path = densePath reached, newDestination = None\<rparr>))))"

text \<open>
  Example towns: a corridor of three tiles; player \<open>p1\<close> stands at \<open>(0, 0)\<close>. In
  \<open>town_met\<close> another player stands at \<open>(1, 0)\<close> at time 0 and at \<open>(2, 0)\<close> at every other
  time; in \<open>town_left\<close> it is at \<open>(1, 0)\<close> at time 0 and far away at every other time.
  \<open>town_wall\<close> is a corridor of four tiles whose third tile is blocked.
\<close>

definition player1 :: PlayerDoc where
  "player1 = \<lparr>player_id = ''p1'', locationId = ''l1''\<rparr>"

definition player2 :: PlayerDoc where
  "player2 = \<lparr>player_id = ''p2'', locationId = ''l2''\<rparr>"

definition at_origin :: LocationDoc where
  "at_origin = \<lparr>loc_x = 0, loc_y = 0, loc_dx = 1, loc_dy = 0\<rparr>"

definition corridor :: MapDoc where
  "corridor = \<lparr>width = 3, height = 1, objectTiles = [[- 1, - 1, - 1]]\<rparr>"

definition town_alone :: AiTown where
  "town_alone =
     \<lparr>allPlayers = [player1],
      lookupLocation = (\<lambda>t i. if i = ''l1'' then Some at_origin else None),
      gameMap = corridor\<rparr>"

definition town_met :: AiTown where
  "town_met =
     \<lparr>allPlayers = [player1, player2],
      lookupLocation = (\<lambda>t i.
         if i = ''l1'' then Some at_origin
         else if i = ''l2''
         then Some \<lparr>loc_x = (if t = 0 then 1 else 2), loc_y = 0, loc_dx = 1, loc_dy = 0\<rparr>
         else None),
      gameMap = corridor\<rparr>"

definition town_left :: AiTown where
  "town_left =
     \<lparr>allPlayers = [player1, player2],
      lookupLocation = (\<lambda>t i.
         if i = ''l1'' then Some at_origin
         else if i = ''l2''
         then Some \<lparr>loc_x = (if t = 0 then 1 else 9), loc_y = 0, loc_dx = 1, loc_dy = 0\<rparr>
         else None),
      gameMap = corridor\<rparr>"

definition town_wall :: AiTown where
  "town_wall =
     \<lparr>allPlayers = [player1],
      lookupLocation = (\<lambda>t i. if i = ''l1'' then Some at_origin else None),
      gameMap = \<lparr>width = 4, height = 1, objectTiles = [[- 1, - 1, 5, - 1]]\<rparr>\<rparr>"

definition start0 :: "Point \<Rightarrow> PathCandidate" where
  "start0 destination = startCandidate at_origin 0 destination"

text \<open>The candidates met in \<open>town_wall\<close> on the way to \<open>(3, 0)\<close>.\<close>

definition wall_s :: PathCandidate where
  "wall_s = PathCandidate \<lparr>px = 0, py = 0\<rparr> \<lparr>dx = 1, dy = 0\<rparr> 0 0 3 None"

definition wall_c1 :: PathCandidate where
  "wall_c1 = PathCandidate \<lparr>px = 1, py = 0\<rparr> \<lparr>dx = 1, dy = 0\<rparr> 1000 1 3 (Some wall_s)"

definition wall_c0 :: PathCandidate where
  "wall_c0 = PathCandidate \<lparr>px = 0, py = 0\<rparr> \<lparr>dx = - 1, dy = 0\<rparr> 2000 2 5 (Some wall_c1)"

text \<open>The candidates met in \<open>town_alone\<close> on the way to \<open>(2, 0)\<close>.\<close>

definition alone_s :: PathCandidate where
  "alone_s = PathCandidate \<lparr>px = 0, py = 0\<rparr> \<lparr>dx = 1, dy = 0\<rparr> 0 0 2 None"

definition alone_c1 :: PathCandidate where
  "alone_c1 = PathCandidate \<lparr>px = 1, py = 0\<rparr> \<lparr>dx = 1, dy = 0\<rparr> 1000 1 2 (Some alone_s)"

definition alone_c2 :: PathCandidate where
  "alone_c2 = PathCandidate \<lparr>px = 2, py = 0\<rparr> \<lparr>dx = 1, dy = 0\<rparr> 2000 2 2 (Some alone_c1)"

definition alone_c0 :: PathCandidate where
  "alone_c0 = PathCandidate \<lparr>px = 0, py = 0\<rparr> \<lparr>dx = - 1, dy = 0\<rparr> 2000 2 4 (Some alone_c1)"

section \<open>MinHeap: the heap condition\<close>

text \<open>
  For the proofs: the element in a slot, the heap condition on the slots \<open>1, ..., e - 1\<close>
  of a tree (all filled, no parent greater than its child), the multiset of their
  elements, and what is asked of a comparator (a strict weak order: asymmetric, with a
  transitive complement).
\<close>

definition slot :: "'a option list \<Rightarrow> nat \<Rightarrow> 'a" where
  "slot t i = the (t ! i)"

definition heap_ok :: "('a \<Rightarrow> 'a \<Rightarrow> bool) \<Rightarrow> 'a option list \<Rightarrow> nat \<Rightarrow> bool" where
  "heap_ok compare t e \<longleftrightarrow>
     1 \<le> e \<and> e \<le> length t
     \<and> (\<forall>i. 1 \<le> i \<and> i < e \<longrightarrow> t ! i \<noteq> None)
     \<and> (\<forall>i. 2 \<le> i \<and> i < e \<longrightarrow> \<not> compare (slot t (i div 2)) (slot t i))"

definition contents :: "'a option list \<Rightarrow> nat \<Rightarrow> 'a multiset" where
  "contents t e = image_mset (slot t) (mset_set {1..<e})"

definition strict_weak :: "('a \<Rightarrow> 'a \<Rightarrow> bool) \<Rightarrow> bool" where
  "strict_weak compare \<longleftrightarrow>
     (\<forall>a b. compare a b \<longrightarrow> \<not> compare b a)
     \<and> (\<forall>a b c. \<not> compare a b \<and> \<not> compare b c \<longrightarrow> \<not> compare a c)"

chapter \<open>Theorems\<close>

section \<open>GameTable\<close>

lemma set_set_add: "set (set_add x xs) = insert x (set xs)"
  by (auto simp: set_add_def)

lemma map_has_iff: "map_has m k \<longleftrightarrow> k \<in> fst ` set m"
  by (simp add: map_has_def map_of_eq_None_iff)

lemma save_modified_no_delete: "DbDelete i \<notin> set (fst (save_modified d is))"
  by (induction "is") (auto split: option.splits prod.splits)

lemma store_deletes_eq: "store_deletes g = set (deleted g)"
  using save_modified_no_delete [of _ "data g" "modified g"]
  by (auto simp: store_deletes_def GameTable_save_def split: prod.splits option.splits)

lemma deleted_fold_delete:
  "set (deleted (fold GameTable_delete ids g)) = set (deleted g) \<union> (set ids \<inter> fst ` set (data g))"
proof (induction ids arbitrary: g)
  case Nil
  then show ?case by simp
next
  case (Cons i ids)
  have keys: "fst ` set (AList.delete i (data g)) = fst ` set (data g) - {i}"
    by (auto simp: AList.delete_eq)
  show ?case
  proof (cases "i \<in> fst ` set (data g)")
    case True
    then have "GameTable_delete i g
        = g\<lparr>data := AList.delete i (data g), deleted := set_add i (deleted g)\<rparr>"
      by (simp add: GameTable_delete_def map_has_iff)
    then show ?thesis
      using True by (auto simp: Cons.IH set_set_add keys)
  next
    case False
    then have "GameTable_delete i g = g"
      by (simp add: GameTable_delete_def map_has_iff)
    then show ?thesis
      using False by (auto simp: Cons.IH)
  qed
qed

text \<open>
  C10. Deleting an id that is not in the cache leaves the whole table as it was; if
  the id was not already marked deleted, the save that follows issues no store delete
  for it. After any sequence of \<^verbatim>\<open>delete\<close> calls on a table, the ids whose store delete
  \<^verbatim>\<open>save\<close> issues are those already marked deleted before, and those given to a
  \<^verbatim>\<open>delete\<close> call while they were in the cache.
\<close>

theorem delete_absent_unchanged:
  "(i \<notin> fst ` set (data g) \<longrightarrow> GameTable_delete i g = g)
   \<and> (i \<notin> fst ` set (data g) \<and> i \<notin> set (deleted g)
        \<longrightarrow> DbDelete i \<notin> set (fst (GameTable_save (GameTable_delete i g))))
   \<and> store_deletes (fold GameTable_delete ids g)
        = set (deleted g) \<union> (set ids \<inter> fst ` set (data g))"
proof (intro conjI impI)
  assume "i \<notin> fst ` set (data g)"
  then show "GameTable_delete i g = g"
    by (simp add: GameTable_delete_def map_has_iff)
next
  assume a: "i \<notin> fst ` set (data g) \<and> i \<notin> set (deleted g)"
  then have "GameTable_delete i g = g"
    by (simp add: GameTable_delete_def map_has_iff)
  moreover have "i \<notin> store_deletes g"
    using a by (simp add: store_deletes_eq)
  ultimately show "DbDelete i \<notin> set (fst (GameTable_save (GameTable_delete i g)))"
    by (simp add: store_deletes_def)
next
  show "store_deletes (fold GameTable_delete ids g)
        = set (deleted g) \<union> (set ids \<inter> fst ` set (data g))"
    by (simp add: store_deletes_eq deleted_fold_delete)
qed

theorem delete_absent_unchanged_witness:
  "GameTable_delete ''c'' table_ab = table_ab
   \<and> DbDelete ''c'' \<notin> set (fst (GameTable_save (GameTable_delete ''c'' table_ab)))
   \<and> store_deletes (fold GameTable_delete [''a'', ''c'', ''a''] table_ab) = {''a''}"
proof -
  have d: "data table_ab = [(''a'', JObj [(''active'', JBool True)]),
                            (''b'', JObj [(''active'', JBool True)])]"
    and e: "deleted table_ab = []"
    by (simp_all add: table_ab_def GameTable_new_def)
  have k: "fst ` set (data table_ab) = {''a'', ''b''}"
    by (simp add: d)
  have c: "''c'' \<notin> fst ` set (data table_ab)" "''c'' \<notin> set (deleted table_ab)"
    unfolding k e by simp_all
  have s: "set (deleted table_ab) \<union> (set [''a'', ''c'', ''a''] \<inter> fst ` set (data table_ab)) = {''a''}"
    unfolding k e by simp
  note T = delete_absent_unchanged [of "''c''" table_ab "[''a'', ''c'', ''a'']"]
  have 1: "GameTable_delete ''c'' table_ab = table_ab"
    using T c by blast
  have 2: "DbDelete ''c'' \<notin> set (fst (GameTable_save (GameTable_delete ''c'' table_ab)))"
    using T c by blast
  have 3: "store_deletes (fold GameTable_delete [''a'', ''c'', ''a''] table_ab) = {''a''}"
    using T s by presburger
  show ?thesis using 1 2 3 by blast
qed

lemma modified_reflect_on: "modified (reflect_on h m g) = modified g"
  by (simp add: reflect_on_def split: option.splits)

lemma modified_proxy_write:
  "modified (proxy_write isActive h m g) = modified (markModified isActive (hid h) g)"
  by (cases m)
     (simp_all add: proxy_set_def proxy_deleteProperty_def proxy_defineProperty_def
        modified_reflect_on)

text \<open>
  C9, as the code has it. \<^verbatim>\<open>lookup\<close> fails for an id that is not in the cache and for
  one whose cached document is inactive, and returns a handle otherwise. A write
  through a handle of that id (set, delete or define, on the row or on a nested
  object) leaves the id in \<^verbatim>\<open>modified\<close> whenever, at the time of the write, the id is
  still in the cache and its document is active. When the document was deleted from
  the cache or is inactive by then, \<^verbatim>\<open>markModified\<close> only warns and \<^verbatim>\<open>modified\<close> is as
  it was.
\<close>

theorem lookup_write_marks_modified:
  "(map_of (data g) i = None \<longrightarrow> GameTable_lookup isActive i g = Inl (InvalidId i))
   \<and> (\<forall>row. map_of (data g) i = Some row \<and> \<not> isActive row
         \<longrightarrow> GameTable_lookup isActive i g = Inl (InactiveId i))
   \<and> (\<forall>row. map_of (data g) i = Some row \<and> isActive row
         \<longrightarrow> GameTable_lookup isActive i g = Inr \<lparr>hid = i, hpath = []\<rparr>)
   \<and> (\<forall>row h m. hid h = i \<and> map_of (data g) i = Some row \<and> isActive row
         \<longrightarrow> i \<in> set (modified (proxy_write isActive h m g)))
   \<and> (\<forall>h m. hid h = i
           \<and> (map_of (data g) i = None \<or> (\<exists>row. map_of (data g) i = Some row \<and> \<not> isActive row))
         \<longrightarrow> modified (proxy_write isActive h m g) = modified g)"
  by (auto simp: GameTable_lookup_def modified_proxy_write markModified_def set_set_add)

lemma data_table_p1:
  "data table_p1 = [(''p1'', JObj [(''active'', JBool True), (''name'', JStr ''Kira''),
                                   (''pos'', JObj [(''x'', JNum 1)])])]"
  "modified table_p1 = []" "deleted table_p1 = []"
  by (simp_all add: table_p1_def GameTable_new_def)

theorem lookup_write_marks_modified_witness:
  "GameTable_lookup playerActive ''p2'' table_p1 = Inl (InvalidId ''p2'')
   \<and> GameTable_lookup playerActive ''p1'' table_p1 = Inr handle_p1
   \<and> proxy_get handle_p1 ''pos'' table_p1 = Inr (Nested \<lparr>hid = ''p1'', hpath = [''pos'']\<rparr>)
   \<and> ''p1'' \<in> set (modified (proxy_write playerActive \<lparr>hid = ''p1'', hpath = [''pos'']\<rparr>
                                (SetProp ''x'' (JNum 2)) table_p1))
   \<and> modified (proxy_write playerActive handle_p1 (SetProp ''name'' (JStr ''Bob''))
                 (GameTable_delete ''p1'' table_p1)) = []"
proof -
  let ?row = "JObj [(''active'', JBool True), (''name'', JStr ''Kira''),
                               (''pos'', JObj [(''x'', JNum 1)])]"
  have a: "playerActive ?row"
    by (simp add: playerActive_def)
  have r: "map_of (data table_p1) ''p1'' = Some ?row" "map_of (data table_p1) ''p2'' = None"
    by (simp_all add: data_table_p1)
  have g: "proxy_get handle_p1 ''pos'' table_p1 = Inr (Nested \<lparr>hid = ''p1'', hpath = [''pos'']\<rparr>)"
    by (simp add: proxy_get_def target_def handle_p1_def data_table_p1)
  have d: "map_of (data (GameTable_delete ''p1'' table_p1)) ''p1'' = None"
    "modified (GameTable_delete ''p1'' table_p1) = []"
    by (simp_all add: GameTable_delete_def map_has_def data_table_p1 AList.delete_eq)
  note T1 = lookup_write_marks_modified [of table_p1 "''p1''" playerActive]
  note T2 = lookup_write_marks_modified [of table_p1 "''p2''" playerActive]
  note T3 = lookup_write_marks_modified [of "GameTable_delete ''p1'' table_p1" "''p1''" playerActive]
  have 1: "GameTable_lookup playerActive ''p2'' table_p1 = Inl (InvalidId ''p2'')"
    using T2 r by blast
  have 2: "GameTable_lookup playerActive ''p1'' table_p1 = Inr handle_p1"
    using T1 r a unfolding handle_p1_def by blast
  have 3: "''p1'' \<in> set (modified (proxy_write playerActive \<lparr>hid = ''p1'', hpath = [''pos'']\<rparr>
                                (SetProp ''x'' (JNum 2)) table_p1))"
    using T1 [THEN conjunct2, THEN conjunct2, THEN conjunct2, THEN conjunct1, rule_format,
        of "\<lparr>hid = ''p1'', hpath = [''pos'']\<rparr>" ?row "SetProp ''x'' (JNum 2)"] r a
    by (simp del: proxy_write.simps)
  have 4: "modified (proxy_write playerActive handle_p1 (SetProp ''name'' (JStr ''Bob''))
                 (GameTable_delete ''p1'' table_p1)) = []"
    using T3 [THEN conjunct2, THEN conjunct2, THEN conjunct2, THEN conjunct2, rule_format,
        of handle_p1 "SetProp ''name'' (JStr ''Bob'')"] d
    by (simp add: handle_p1_def del: proxy_write.simps)
  show ?thesis using 1 2 g 3 4 by blast
qed

theorem silent_mutation_counterexample:
  "GameTable_lookup playerActive ''p1'' table_p1 = Inr handle_p1
   \<and> (let g1 = proxy_set playerActive handle_p1 ''active'' (JBool False) table_p1;
          g2 = snd (snd (GameTable_save g1));
          g3 = proxy_set playerActive handle_p1 ''name'' (JStr ''Bob'') g2
      in modified g1 = [''p1''] \<and> modified g2 = []
         \<and> map_of (data g3) ''p1'' \<noteq> map_of (data g2) ''p1''
         \<and> ''p1'' \<notin> set (modified g3))"
proof -
  let ?row = "JObj [(''active'', JBool True), (''name'', JStr ''Kira''),
                               (''pos'', JObj [(''x'', JNum 1)])]"
  let ?row1 = "JObj [(''active'', JBool False), (''name'', JStr ''Kira''),
                               (''pos'', JObj [(''x'', JNum 1)])]"
  let ?row3 = "JObj [(''active'', JBool False), (''name'', JStr ''Bob''),
                               (''pos'', JObj [(''x'', JNum 1)])]"
  define g1 where "g1 = proxy_set playerActive handle_p1 ''active'' (JBool False) table_p1"
  define g2 where "g2 = snd (snd (GameTable_save g1))"
  define g3 where "g3 = proxy_set playerActive handle_p1 ''name'' (JStr ''Bob'') g2"
  have l: "GameTable_lookup playerActive ''p1'' table_p1 = Inr handle_p1"
    by (simp add: GameTable_lookup_def data_table_p1 playerActive_def handle_p1_def)
  have g1: "data g1 = [(''p1'', ?row1)]" "modified g1 = [''p1'']" "deleted g1 = []"
    by (simp_all add: g1_def proxy_set_def markModified_def reflect_on_def data_table_p1
        playerActive_def handle_p1_def set_add_def)
  have g2: "data g2 = [(''p1'', ?row1)]" "modified g2 = []"
    by (simp_all add: g2_def GameTable_save_def g1)
  have g3: "data g3 = [(''p1'', ?row3)]" "modified g3 = []"
    by (simp_all add: g3_def proxy_set_def markModified_def reflect_on_def g2
        playerActive_def handle_p1_def)
  show ?thesis
    unfolding Let_def g1_def [symmetric] g2_def [symmetric] g3_def [symmetric]
    using l by (simp add: g1 g2 g3)
qed

section \<open>HistoricalTimeManager\<close>

lemma scan_intervals_ge:
  "scan_intervals ivs i s ch = (s', c) \<Longrightarrow> s \<le> s'"
proof (induction ivs arbitrary: i s ch)
  case Nil
  then show ?case by simp
next
  case (Cons iv ivs)
  then show ?case
    by (fastforce split: if_splits)
qed

lemma scan_intervals_upper:
  "list_all (\<lambda>iv. startTs iv \<le> endTs iv \<and> endTs iv \<le> L) ivs \<Longrightarrow>
   (ch \<noteq> None \<longrightarrow> s \<le> L) \<Longrightarrow>
   scan_intervals ivs i s ch = (s', Some c) \<Longrightarrow> s' \<le> L"
proof (induction ivs arbitrary: i s ch)
  case Nil
  then show ?case by simp
next
  case (Cons iv ivs)
  show ?case
  proof (cases "endTs iv < s")
    case True
    with Cons.prems have "scan_intervals ivs (i + 1) s ch = (s', Some c)" by simp
    with Cons.IH [of ch s "i + 1"] Cons.prems show ?thesis by simp
  next
    case False
    show ?thesis
    proof (cases "startTs iv \<le> s")
      case True
      with False Cons.prems show ?thesis by simp
    next
      case False2: False
      with False Cons.prems
      have "scan_intervals ivs (i + 1) (startTs iv) (Some i) = (s', Some c)" by simp
      with Cons.IH [of "Some i" "startTs iv" "i + 1"] Cons.prems show ?thesis by simp
    qed
  qed
qed

lemma scan_intervals_index:
  "scan_intervals ivs i s ch = (s', Some c) \<Longrightarrow> ch = Some c \<or> (i \<le> c \<and> c < i + length ivs)"
proof (induction ivs arbitrary: i s ch)
  case Nil
  then show ?case by simp
next
  case (Cons iv ivs)
  then show ?case
    by (fastforce split: if_splits)
qed

lemma drop_keeps_last:
  "n < length xs \<Longrightarrow> drop n xs \<noteq> [] \<and> last (drop n xs) = last xs"
  by simp

lemma list_all_drop: "list_all P xs \<Longrightarrow> list_all P (drop n xs)"
  by (metis append_take_drop_id list_all_append)

lemma historicalServerTime_new_client:
  assumes ne: "intervals m \<noteq> []" and lastL: "endTs (last (intervals m)) = L"
    and all: "list_all (\<lambda>iv. startTs iv \<le> endTs iv \<and> endTs iv \<le> L) (intervals m)"
    and new: "prevClientTs m \<noteq> Some c"
  shows "\<exists>v m' n. historicalServerTime c m = (Some v, m')
           \<and> L - MAX_SERVER_BUFFER_AGE \<le> v \<and> v \<le> L
           \<and> prevClientTs m' = Some c \<and> prevServerTs m' = Some v
           \<and> n < length (intervals m) \<and> intervals m' = drop n (intervals m)
           \<and> (\<forall>pc pv. prevClientTs m = Some pc \<and> prevServerTs m = Some pv \<and> pc \<le> c \<and> pv \<le> L
                \<longrightarrow> pv \<le> v)"
proof -
  from new have False: "Some c \<noteq> prevClientTs m" by auto
  define prevClient where "prevClient = (case prevClientTs m of None \<Rightarrow> c | Some x \<Rightarrow> x)"
  define prevServer where
    "prevServer = (case prevServerTs m of None \<Rightarrow> startTs (hd (intervals m)) | Some s \<Rightarrow> s)"
  define rate :: real where
    "rate = (if L - prevServer < SOFT_MIN_SERVER_BUFFER_AGE then 0.8
             else if L - prevServer > SOFT_MAX_SERVER_BUFFER_AGE then 1.2 else 1)"
  define s0 where "s0 = max (prevServer + (c - prevClient) * rate) (L - MAX_SERVER_BUFFER_AGE)"
  define sc where "sc = scan_intervals (intervals m) 0 s0 None"
  define v where "v = (case sc of (s, None) \<Rightarrow> L | (s, Some k) \<Rightarrow> s)"
  define chosen where
    "chosen = (case sc of (s, None) \<Rightarrow> length (intervals m) - 1 | (s, Some k) \<Rightarrow> k)"
  define toTrim where "toTrim = nat (max (int chosen - 1) 0)"
  define m1 where
    "m1 = (if toTrim > 0
           then m\<lparr>totalDuration := totalDuration m
                      - (\<Sum>snapshot \<leftarrow> take toTrim (intervals m). endTs snapshot - startTs snapshot),
                  intervals := drop toTrim (intervals m)\<rparr>
           else m)"
  define m' where "m' = m1\<lparr>prevClientTs := Some c, prevServerTs := Some v\<rparr>"
  have res: "historicalServerTime c m = (Some v, m')"
    using False ne
    unfolding historicalServerTime_def Let_def lastL
      prevClient_def [symmetric] prevServer_def [symmetric] rate_def [symmetric]
      s0_def [symmetric] sc_def [symmetric]
    by (simp add: m'_def m1_def toTrim_def chosen_def v_def split: prod.splits option.splits)
  have rate_pos: "0 < rate" by (simp add: rate_def)
  have s0_lo: "L - MAX_SERVER_BUFFER_AGE \<le> s0" by (simp add: s0_def)
  have v_ge: "s0 \<le> v \<or> v = L" and v_le: "v \<le> L" and chosen_lt: "chosen < length (intervals m)"
  proof -
    obtain s k where sc: "sc = (s, k)" by (cases sc)
    show "s0 \<le> v \<or> v = L"
      using sc scan_intervals_ge [of "intervals m" 0 s0 None s k]
      by (cases k) (simp_all add: v_def sc_def)
    show "v \<le> L"
      using sc scan_intervals_upper [OF all, of None s0 0 s] 
      by (cases k) (simp_all add: v_def sc_def)
    show "chosen < length (intervals m)"
      using sc scan_intervals_index [of "intervals m" 0 s0 None s] ne
      by (cases k) (auto simp: chosen_def sc_def)
  qed
  have v_lo: "L - MAX_SERVER_BUFFER_AGE \<le> v"
    using v_ge s0_lo by (auto simp: MAX_SERVER_BUFFER_AGE_def)
  have trim: "toTrim < length (intervals m)"
    using chosen_lt by (simp add: toTrim_def)
  have iv1: "intervals m' = drop toTrim (intervals m)"
    by (simp add: m'_def m1_def)
  have mono: "pv \<le> v"
    if "prevClientTs m = Some pc" "prevServerTs m = Some pv" "pc \<le> c" "pv \<le> L" for pc pv
  proof -
    have "0 \<le> (c - pc) * rate" using that rate_pos by simp
    then have "pv \<le> s0" using that by (simp add: s0_def prevServer_def prevClient_def max_def)
    then show ?thesis using v_ge that(4) by auto
  qed
  have p': "prevClientTs m' = Some c" "prevServerTs m' = Some v"
    by (simp_all add: m'_def)
  have "historicalServerTime c m = (Some v, m')
           \<and> L - MAX_SERVER_BUFFER_AGE \<le> v \<and> v \<le> L
           \<and> prevClientTs m' = Some c \<and> prevServerTs m' = Some v
           \<and> toTrim < length (intervals m) \<and> intervals m' = drop toTrim (intervals m)
           \<and> (\<forall>pc pv. prevClientTs m = Some pc \<and> prevServerTs m = Some pv \<and> pc \<le> c \<and> pv \<le> L
                \<longrightarrow> pv \<le> v)"
    using res v_lo v_le p' trim iv1 mono by blast
  then show ?thesis by (intro exI)
qed

lemma historicalServerTime_step:
  assumes inv: "htm_inv L m"
  shows "\<exists>v m'. historicalServerTime c m = (Some v, m') \<and> htm_inv L m'
           \<and> L - MAX_SERVER_BUFFER_AGE \<le> v \<and> v \<le> L
           \<and> prevClientTs m' = Some c \<and> prevServerTs m' = Some v
           \<and> (\<forall>pc pv. prevClientTs m = Some pc \<and> prevServerTs m = Some pv \<and> pc \<le> c \<longrightarrow> pv \<le> v)"
proof (cases "Some c = prevClientTs m")
  case True
  with inv obtain p where p: "prevServerTs m = Some p" "L - MAX_SERVER_BUFFER_AGE \<le> p" "p \<le> L"
    by (auto simp: htm_inv_def split: option.splits)
  have "historicalServerTime c m = (Some p, m)"
    using True inv p by (simp add: historicalServerTime_def htm_inv_def)
  then show ?thesis using inv p True by auto
next
  case False
  from inv have ne: "intervals m \<noteq> []" and lastL: "endTs (last (intervals m)) = L"
    and all: "list_all (\<lambda>iv. startTs iv \<le> endTs iv \<and> endTs iv \<le> L) (intervals m)"
    by (simp_all add: htm_inv_def)
  from False have new: "prevClientTs m \<noteq> Some c" by auto
  from historicalServerTime_new_client [OF ne lastL all new]
  obtain v m' n where r: "historicalServerTime c m = (Some v, m')"
      "L - MAX_SERVER_BUFFER_AGE \<le> v" "v \<le> L"
      "prevClientTs m' = Some c" "prevServerTs m' = Some v"
      "n < length (intervals m)" "intervals m' = drop n (intervals m)"
    and mono: "\<forall>pc pv. prevClientTs m = Some pc \<and> prevServerTs m = Some pv \<and> pc \<le> c \<and> pv \<le> L
                \<longrightarrow> pv \<le> v"
    by blast
  have inv': "htm_inv L m'"
    using r ne lastL all by (simp add: htm_inv_def list_all_drop)
  have "pv \<le> v" if "prevClientTs m = Some pc" "prevServerTs m = Some pv" "pc \<le> c" for pc pv
  proof -
    have "pv \<le> L" using inv that by (simp add: htm_inv_def)
    with mono that show ?thesis by blast
  qed
  then show ?thesis using r inv' by blast
qed

lemma frames_length: "htm_inv L m \<Longrightarrow> length (frames cs m) = length cs"
proof (induction cs arbitrary: m)
  case Nil
  then show ?case by simp
next
  case (Cons c cs)
  from historicalServerTime_step [OF Cons.prems, of c]
  obtain v m' where "historicalServerTime c m = (Some v, m')" "htm_inv L m'" by blast
  then show ?case using Cons.IH [of m'] by simp
qed

lemma frames_bounds:
  "htm_inv L m \<Longrightarrow> k < length cs \<Longrightarrow>
   \<exists>v. frames cs m ! k = Some v \<and> L - MAX_SERVER_BUFFER_AGE \<le> v \<and> v \<le> L"
proof (induction cs arbitrary: m k)
  case Nil
  then show ?case by simp
next
  case (Cons c cs)
  from historicalServerTime_step [OF Cons.prems(1), of c]
  obtain v m' where s: "historicalServerTime c m = (Some v, m')" "htm_inv L m'"
    "L - MAX_SERVER_BUFFER_AGE \<le> v" "v \<le> L" by blast
  show ?case
  proof (cases k)
    case 0
    then show ?thesis using s by simp
  next
    case (Suc j)
    then show ?thesis using s Cons.IH [of m' j] Cons.prems(2) by simp
  qed
qed

lemma frames_first:
  assumes "htm_inv L m" "prevClientTs m = Some pc" "prevServerTs m = Some pv" "pc \<le> c"
  shows "\<exists>v. frames (c # cs) m ! 0 = Some v \<and> pv \<le> v"
proof -
  from historicalServerTime_step [OF assms(1), of c]
  obtain v m' where s: "historicalServerTime c m = (Some v, m')"
    "\<forall>pc pv. prevClientTs m = Some pc \<and> prevServerTs m = Some pv \<and> pc \<le> c \<longrightarrow> pv \<le> v"
    by blast
  then show ?thesis using assms by simp
qed

lemma frames_monotone:
  "htm_inv L m \<Longrightarrow> Suc k < length cs \<Longrightarrow> cs ! k \<le> cs ! Suc k \<Longrightarrow>
   \<exists>v w. frames cs m ! k = Some v \<and> frames cs m ! Suc k = Some w \<and> v \<le> w"
proof (induction cs arbitrary: m k)
  case Nil
  then show ?case by simp
next
  case (Cons c cs)
  from historicalServerTime_step [OF Cons.prems(1), of c]
  obtain v m' where s: "historicalServerTime c m = (Some v, m')" "htm_inv L m'"
    "prevClientTs m' = Some c" "prevServerTs m' = Some v" by blast
  show ?case
  proof (cases k)
    case 0
    with Cons.prems obtain c' cs' where cs: "cs = c' # cs'" "c \<le> c'"
      by (cases cs) auto
    from frames_first [OF s(2) s(3) s(4) cs(2), of cs']
    obtain w where "frames (c' # cs') m' ! 0 = Some w" "v \<le> w" by blast
    then show ?thesis using 0 s(1) cs by simp
  next
    case (Suc j)
    then show ?thesis using s Cons.IH [of m' j] Cons.prems by simp
  qed
qed

lemma sorted_le_last: "sorted xs \<Longrightarrow> x \<in> set xs \<Longrightarrow> x \<le> last xs"
  by (induction xs) (auto split: if_splits)

lemma sorted_ends_le_last:
  assumes "intervals m \<noteq> []"
    and "list_all (\<lambda>iv. startTs iv \<le> endTs iv) (intervals m)"
    and "sorted (map endTs (intervals m))"
  shows "list_all (\<lambda>iv. startTs iv \<le> endTs iv \<and> endTs iv \<le> endTs (last (intervals m)))
           (intervals m)"
proof -
  have "endTs iv \<le> endTs (last (intervals m))" if "iv \<in> set (intervals m)" for iv
    using sorted_le_last [OF assms(3), of "endTs iv"] that assms(1)
    by (simp add: last_map)
  then show ?thesis
    using assms(2) by (auto simp: list_all_iff)
qed

lemma manager_stale_eq:
  "manager_stale =
     \<lparr>intervals = [\<lparr>startTs = 1000, endTs = 2000\<rparr>, \<lparr>startTs = 2000, endTs = 6000\<rparr>],
      prevClientTs = Some 100, prevServerTs = Some 1000, totalDuration = 5000,
      latestEngineStatus = Some status_2000_6000\<rparr>"
  by (simp add: manager_stale_def receive_def truthy_def historicalServerTime_def Let_def
      new_HistoricalTimeManager_def status_1000_2000_def status_2000_6000_def
      MAX_SERVER_BUFFER_AGE_def SOFT_MAX_SERVER_BUFFER_AGE_def SOFT_MIN_SERVER_BUFFER_AGE_def)

text \<open>
  C2, as the code has it. On a manager that holds a non-empty list of intervals (each
  with start \<open>\<le>\<close> end, ends in non-decreasing order), in any state:

  \<^item> a call of \<^verbatim>\<open>historicalServerTime\<close> whose client time is the one of the previous call
    returns the remembered result of that call and changes nothing, whatever the
    intervals are now;
  \<^item> a call with any other client time (or the first call) returns a server time
    between the last interval's end minus 1250 and the last interval's end, remembers
    the client time and the result, and only drops intervals from the front of the
    list;
  \<^item> a call whose client time is at least the previous call's returns at least the
    previous result, provided that result is not after the last interval's end;
  \<^item> so on a list that stays the same, starting with no remembered call or with a
    remembered result within the two bounds, successive calls with any client times
    each return a server time within the bounds, and whenever a call's client time is
    at least the previous call's, its result is at least the previous result.
\<close>

theorem historicalServerTime_cached_or_bounded:
  assumes "intervals m \<noteq> []"
    and "list_all (\<lambda>iv. startTs iv \<le> endTs iv) (intervals m)"
    and "sorted (map endTs (intervals m))"
  shows "(prevClientTs m = Some c \<longrightarrow> historicalServerTime c m = (prevServerTs m, m))
    \<and> (prevClientTs m \<noteq> Some c \<longrightarrow>
         (\<exists>v m' n. historicalServerTime c m = (Some v, m')
            \<and> endTs (last (intervals m)) - 1250 \<le> v \<and> v \<le> endTs (last (intervals m))
            \<and> prevClientTs m' = Some c \<and> prevServerTs m' = Some v
            \<and> n < length (intervals m) \<and> intervals m' = drop n (intervals m)))
    \<and> (\<forall>pc pv. prevClientTs m = Some pc \<and> prevServerTs m = Some pv
           \<and> pc \<le> c \<and> pv \<le> endTs (last (intervals m)) \<longrightarrow>
         (\<exists>v m'. historicalServerTime c m = (Some v, m') \<and> pv \<le> v))
    \<and> (prevClientTs m = None \<and> prevServerTs m = None
        \<or> (\<exists>pc pv. prevClientTs m = Some pc \<and> prevServerTs m = Some pv
              \<and> endTs (last (intervals m)) - 1250 \<le> pv \<and> pv \<le> endTs (last (intervals m)))
       \<longrightarrow>
         length (frames cs m) = length cs
         \<and> (\<forall>k < length cs. \<exists>v. frames cs m ! k = Some v
               \<and> endTs (last (intervals m)) - 1250 \<le> v \<and> v \<le> endTs (last (intervals m)))
         \<and> (\<forall>k. Suc k < length cs \<and> cs ! k \<le> cs ! Suc k \<longrightarrow>
               (\<exists>v w. frames cs m ! k = Some v \<and> frames cs m ! Suc k = Some w \<and> v \<le> w)))"
proof -
  define L where "L = endTs (last (intervals m))"
  have lastL: "endTs (last (intervals m)) = L" by (simp add: L_def)
  have all: "list_all (\<lambda>iv. startTs iv \<le> endTs iv \<and> endTs iv \<le> L) (intervals m)"
    unfolding L_def using assms by (rule sorted_ends_le_last)
  have ne: "intervals m \<noteq> []" by (rule assms(1))
  have 1: "historicalServerTime c m = (prevServerTs m, m)" if "prevClientTs m = Some c"
    using that ne by (simp add: historicalServerTime_def)
  have 2: "\<exists>v m' n. historicalServerTime c m = (Some v, m')
            \<and> L - 1250 \<le> v \<and> v \<le> L
            \<and> prevClientTs m' = Some c \<and> prevServerTs m' = Some v
            \<and> n < length (intervals m) \<and> intervals m' = drop n (intervals m)"
    if new: "prevClientTs m \<noteq> Some c"
  proof -
    from historicalServerTime_new_client [OF ne lastL all new]
    obtain v m' n where "historicalServerTime c m = (Some v, m')"
      "L - MAX_SERVER_BUFFER_AGE \<le> v" "v \<le> L"
      "prevClientTs m' = Some c" "prevServerTs m' = Some v"
      "n < length (intervals m)" "intervals m' = drop n (intervals m)"
      by blast
    then have "historicalServerTime c m = (Some v, m')
            \<and> L - 1250 \<le> v \<and> v \<le> L
            \<and> prevClientTs m' = Some c \<and> prevServerTs m' = Some v
            \<and> n < length (intervals m) \<and> intervals m' = drop n (intervals m)"
      by (simp add: MAX_SERVER_BUFFER_AGE_def)
    then show ?thesis by (intro exI)
  qed
  have 3: "\<exists>v m'. historicalServerTime c m = (Some v, m') \<and> pv \<le> v"
    if p: "prevClientTs m = Some pc" "prevServerTs m = Some pv" "pc \<le> c" "pv \<le> L" for pc pv
  proof (cases "pc = c")
    case True
    with 1 p have "historicalServerTime c m = (Some pv, m)" by simp
    then show ?thesis by simp
  next
    case False
    with p have new: "prevClientTs m \<noteq> Some c" by simp
    from historicalServerTime_new_client [OF ne lastL all new]
    obtain v m' where "historicalServerTime c m = (Some v, m')"
      and "\<forall>pc pv. prevClientTs m = Some pc \<and> prevServerTs m = Some pv \<and> pc \<le> c \<and> pv \<le> L
                \<longrightarrow> pv \<le> v"
      by blast
    with p show ?thesis by blast
  qed
  have 4: "length (frames cs m) = length cs
         \<and> (\<forall>k < length cs. \<exists>v. frames cs m ! k = Some v \<and> L - 1250 \<le> v \<and> v \<le> L)
         \<and> (\<forall>k. Suc k < length cs \<and> cs ! k \<le> cs ! Suc k \<longrightarrow>
               (\<exists>v w. frames cs m ! k = Some v \<and> frames cs m ! Suc k = Some w \<and> v \<le> w))"
    if prev: "prevClientTs m = None \<and> prevServerTs m = None
        \<or> (\<exists>pc pv. prevClientTs m = Some pc \<and> prevServerTs m = Some pv
              \<and> L - 1250 \<le> pv \<and> pv \<le> L)"
  proof -
    have inv: "htm_inv L m"
      using prev ne lastL all by (auto simp: htm_inv_def MAX_SERVER_BUFFER_AGE_def)
    show ?thesis
      using frames_length [OF inv, of cs] frames_bounds [OF inv, of _ cs]
        frames_monotone [OF inv, of _ cs]
      by (simp add: MAX_SERVER_BUFFER_AGE_def)
  qed
  show ?thesis
    unfolding lastL using 1 2 3 4 by blast
qed

theorem historicalServerTime_cached_or_bounded_witness:
  "intervals manager_stale \<noteq> []
   \<and> list_all (\<lambda>iv. startTs iv \<le> endTs iv) (intervals manager_stale)
   \<and> sorted (map endTs (intervals manager_stale))
   \<and> prevClientTs manager_stale = Some 100 \<and> prevServerTs manager_stale = Some 1000
   \<and> endTs (last (intervals manager_stale)) = 6000
   \<and> historicalServerTime 100 manager_stale = (Some 1000, manager_stale)
   \<and> (\<exists>v m' n. historicalServerTime 200 manager_stale = (Some v, m')
         \<and> 4750 \<le> v \<and> v \<le> 6000 \<and> 1000 \<le> v
         \<and> prevClientTs m' = Some 200 \<and> prevServerTs m' = Some v
         \<and> n < 2 \<and> intervals m' = drop n (intervals manager_stale))
   \<and> intervals manager_two \<noteq> []
   \<and> list_all (\<lambda>iv. startTs iv \<le> endTs iv) (intervals manager_two)
   \<and> sorted (map endTs (intervals manager_two))
   \<and> prevClientTs manager_two = None \<and> prevServerTs manager_two = None
   \<and> (\<exists>v w. frames [0, 1000] manager_two ! 0 = Some v
          \<and> frames [0, 1000] manager_two ! 1 = Some w
          \<and> 750 \<le> v \<and> v \<le> w \<and> w \<le> 2000)"
proof -
  have s: "intervals manager_stale \<noteq> []"
    "list_all (\<lambda>iv. startTs iv \<le> endTs iv) (intervals manager_stale)"
    "sorted (map endTs (intervals manager_stale))"
    by (simp_all add: manager_stale_eq)
  have sp: "prevClientTs manager_stale = Some 100" "prevServerTs manager_stale = Some 1000"
    "endTs (last (intervals manager_stale)) = 6000" "length (intervals manager_stale) = 2"
    by (simp_all add: manager_stale_eq)
  note S1 = historicalServerTime_cached_or_bounded [OF s, of 100 "[]", unfolded sp]
  note S2 = historicalServerTime_cached_or_bounded [OF s, of 200 "[]", unfolded sp]
  from S1 have c1: "historicalServerTime 100 manager_stale = (Some 1000, manager_stale)"
    by simp
  from S2 have "\<exists>v m' n. historicalServerTime 200 manager_stale = (Some v, m')
         \<and> 4750 \<le> v \<and> v \<le> 6000
         \<and> prevClientTs m' = Some 200 \<and> prevServerTs m' = Some v
         \<and> n < 2 \<and> intervals m' = drop n (intervals manager_stale)"
    by simp
  then obtain v m' n where a: "historicalServerTime 200 manager_stale = (Some v, m')"
    "4750 \<le> v" "v \<le> 6000" "prevClientTs m' = Some 200" "prevServerTs m' = Some v"
    "n < 2" "intervals m' = drop n (intervals manager_stale)"
    by blast
  from S2 have "\<exists>v m'. historicalServerTime 200 manager_stale = (Some v, m') \<and> 1000 \<le> v"
    by simp
  with a have "1000 \<le> v" by auto
  with a have c2: "\<exists>v m' n. historicalServerTime 200 manager_stale = (Some v, m')
         \<and> 4750 \<le> v \<and> v \<le> 6000 \<and> 1000 \<le> v
         \<and> prevClientTs m' = Some 200 \<and> prevServerTs m' = Some v
         \<and> n < 2 \<and> intervals m' = drop n (intervals manager_stale)"
    by blast
  have h: "intervals manager_two \<noteq> []"
    "list_all (\<lambda>iv. startTs iv \<le> endTs iv) (intervals manager_two)"
    "sorted (map endTs (intervals manager_two))"
    by (simp_all add: manager_two_def)
  have hp: "prevClientTs manager_two = None" "prevServerTs manager_two = None"
    by (simp_all add: manager_two_def)
  have L: "endTs (last (intervals manager_two)) = 2000"
    by (simp add: manager_two_def)
  note T = historicalServerTime_cached_or_bounded [OF h, of 0 "[0, 1000]", unfolded L hp]
  from T have b: "\<forall>k<2. \<exists>v. frames [0, 1000] manager_two ! k = Some v \<and> 750 \<le> v \<and> v \<le> 2000"
    by simp
  from T have "\<exists>v w. frames [0, 1000] manager_two ! 0 = Some v
      \<and> frames [0, 1000] manager_two ! Suc 0 = Some w \<and> v \<le> w"
    by simp
  then obtain v' w where vw: "frames [0, 1000] manager_two ! 0 = Some v'"
    "frames [0, 1000] manager_two ! Suc 0 = Some w" "v' \<le> w" by blast
  from b [rule_format, of 0] vw have "750 \<le> v'" by simp
  moreover from b [rule_format, of "Suc 0"] vw have "w \<le> 2000" by simp
  ultimately have c3: "\<exists>v w. frames [0, 1000] manager_two ! 0 = Some v
          \<and> frames [0, 1000] manager_two ! 1 = Some w
          \<and> 750 \<le> v \<and> v \<le> w \<and> w \<le> 2000"
    using vw by auto
  show ?thesis
    using s sp(1,2,3) c1 c2 h hp c3 by (intro conjI)
qed

text \<open>
  The claim as stated fails on the remembered result. A new manager receives the
  interval from 1000 to 2000 and answers \<^verbatim>\<open>historicalServerTime(100)\<close> with 1000; it then
  receives the interval from 2000 to 6000. The next call \<^verbatim>\<open>historicalServerTime(100)\<close>
  returns the remembered 1000, which is below the last interval's end minus 1250, that
  is 4750.
\<close>

theorem historicalServerTime_stale_counterexample:
  "fst (historicalServerTime 100 (snd (receive status_1000_2000 new_HistoricalTimeManager)))
     = Some 1000
   \<and> intervals manager_stale
       = [\<lparr>startTs = 1000, endTs = 2000\<rparr>, \<lparr>startTs = 2000, endTs = 6000\<rparr>]
   \<and> fst (historicalServerTime 100 manager_stale) = Some 1000
   \<and> endTs (last (intervals manager_stale)) - 1250 = 4750
   \<and> (1000 :: real) < endTs (last (intervals manager_stale)) - 1250"
  by (simp add: manager_stale_def receive_def truthy_def historicalServerTime_def Let_def
      new_HistoricalTimeManager_def status_1000_2000_def status_2000_6000_def
      MAX_SERVER_BUFFER_AGE_def SOFT_MAX_SERVER_BUFFER_AGE_def SOFT_MIN_SERVER_BUFFER_AGE_def)

lemma frames_manager_two: "frames [0, 1000] manager_two = [Some 750, Some 1950]"
  by (simp add: manager_two_def historicalServerTime_def MAX_SERVER_BUFFER_AGE_def
      SOFT_MAX_SERVER_BUFFER_AGE_def SOFT_MIN_SERVER_BUFFER_AGE_def Let_def)

text \<open>
  C7, as the code has it. Every call stores the status as \<^verbatim>\<open>latestEngineStatus\<close>. For a
  status whose \<^verbatim>\<open>currentTime\<close> and \<^verbatim>\<open>lastStepTs\<close> are both set and non-zero: when
  \<^verbatim>\<open>currentTime\<close> equals the end of the last stored interval, nothing else changes; when
  it is strictly less, the call fails with the out-of-order error and the intervals
  stay as they were; otherwise (no interval stored, or a later \<^verbatim>\<open>currentTime\<close>) the
  interval from \<^verbatim>\<open>lastStepTs\<close> to \<^verbatim>\<open>currentTime\<close> is appended and its length added to
  \<^verbatim>\<open>totalDuration\<close>. A status that lacks \<^verbatim>\<open>currentTime\<close> or \<^verbatim>\<open>lastStepTs\<close> changes nothing
  but \<^verbatim>\<open>latestEngineStatus\<close>.
\<close>

theorem receive_cases:
  "(currentTime st = Some ct \<and> lastStepTs st = Some ls \<and> ct \<noteq> 0 \<and> ls \<noteq> 0
      \<and> intervals m \<noteq> [] \<and> endTs (last (intervals m)) = ct
     \<longrightarrow> receive st m = (None, m\<lparr>latestEngineStatus := Some st\<rparr>))
   \<and> (currentTime st = Some ct \<and> lastStepTs st = Some ls \<and> ct \<noteq> 0 \<and> ls \<noteq> 0
      \<and> intervals m \<noteq> [] \<and> ct < endTs (last (intervals m))
     \<longrightarrow> receive st m = (Some OutOfOrderStatus, m\<lparr>latestEngineStatus := Some st\<rparr>))
   \<and> (currentTime st = Some ct \<and> lastStepTs st = Some ls \<and> ct \<noteq> 0 \<and> ls \<noteq> 0
      \<and> (intervals m = [] \<or> endTs (last (intervals m)) < ct)
     \<longrightarrow> receive st m =
          (None, m\<lparr>latestEngineStatus := Some st,
                   intervals := intervals m @ [\<lparr>startTs = ls, endTs = ct\<rparr>],
                   totalDuration := totalDuration m + (ct - ls)\<rparr>))
   \<and> (currentTime st = None \<or> lastStepTs st = None
     \<longrightarrow> receive st m = (None, m\<lparr>latestEngineStatus := Some st\<rparr>))"
  by (auto simp: receive_def truthy_def Let_def)

theorem receive_cases_witness:
  "receive status_3_5 manager_one = (None, manager_one\<lparr>latestEngineStatus := Some status_3_5\<rparr>)
   \<and> fst (receive \<lparr>currentTime = Some 4, lastStepTs = Some 3, generationNumber = 1\<rparr> manager_one)
       = Some OutOfOrderStatus
   \<and> intervals (snd (receive status_5_9 manager_one))
       = [\<lparr>startTs = 3, endTs = 5\<rparr>, \<lparr>startTs = 5, endTs = 9\<rparr>]
   \<and> intervals (snd (receive status_3_5 new_HistoricalTimeManager)) = [\<lparr>startTs = 3, endTs = 5\<rparr>]
   \<and> intervals (snd (receive \<lparr>currentTime = None, lastStepTs = Some 3, generationNumber = 1\<rparr>
        manager_one)) = [\<lparr>startTs = 3, endTs = 5\<rparr>]"
proof -
  have m: "intervals manager_one = [\<lparr>startTs = 3, endTs = 5\<rparr>]"
    by (simp add: manager_one_def)
  have n: "intervals new_HistoricalTimeManager = []"
    by (simp add: new_HistoricalTimeManager_def)
  have 1: "receive status_3_5 manager_one
      = (None, manager_one\<lparr>latestEngineStatus := Some status_3_5\<rparr>)"
    using receive_cases [of status_3_5 5 3 manager_one] m by (simp add: status_3_5_def)
  have 2: "fst (receive \<lparr>currentTime = Some 4, lastStepTs = Some 3, generationNumber = 1\<rparr>
      manager_one) = Some OutOfOrderStatus"
    using receive_cases [of "\<lparr>currentTime = Some 4, lastStepTs = Some 3, generationNumber = 1\<rparr>"
        4 3 manager_one] m by simp
  have 3: "intervals (snd (receive status_5_9 manager_one))
      = [\<lparr>startTs = 3, endTs = 5\<rparr>, \<lparr>startTs = 5, endTs = 9\<rparr>]"
    using receive_cases [of status_5_9 9 5 manager_one] m by (simp add: status_5_9_def)
  have 4: "intervals (snd (receive status_3_5 new_HistoricalTimeManager))
      = [\<lparr>startTs = 3, endTs = 5\<rparr>]"
    using receive_cases [of status_3_5 5 3 new_HistoricalTimeManager] n
    by (simp add: status_3_5_def)
  have 5: "intervals (snd (receive \<lparr>currentTime = None, lastStepTs = Some 3, generationNumber = 1\<rparr>
        manager_one)) = [\<lparr>startTs = 3, endTs = 5\<rparr>]"
    using receive_cases [of "\<lparr>currentTime = None, lastStepTs = Some 3, generationNumber = 1\<rparr>"
        0 0 manager_one] m by simp
  show ?thesis using 1 2 3 4 5 by blast
qed

text \<open>
  The claim as stated fails twice. A status whose \<^verbatim>\<open>currentTime\<close> equals the last
  interval's end is not a no-op: the manager's \<^verbatim>\<open>latestEngineStatus\<close> changes. And a
  status with \<^verbatim>\<open>lastStepTs = 0\<close> has both fields set, yet the truthiness test takes it
  for missing: no interval is appended.
\<close>

theorem receive_counterexample:
  "snd (receive status_3_5 manager_one) \<noteq> manager_one
   \<and> intervals (snd (receive status_0_5 new_HistoricalTimeManager)) = []
   \<and> intervals (snd (receive status_0_5 new_HistoricalTimeManager))
       \<noteq> [\<lparr>startTs = 0, endTs = 5\<rparr>]"
  by (simp add: receive_def truthy_def Let_def status_3_5_def status_0_5_def manager_one_def
      new_HistoricalTimeManager_def)

section \<open>Geometry\<close>

lemma segments_enclosing:
  "2 \<le> length path \<Longrightarrow> pt (path ! 0) \<le> time \<Longrightarrow> time \<le> pt (last path) \<Longrightarrow>
   \<exists>i. Suc i < length path
     \<and> pt (path ! i) \<le> time \<and> time \<le> pt (path ! Suc i)
     \<and> (\<forall>j<i. \<not> time \<le> pt (path ! Suc j))
     \<and> segments path time =
         Inr \<lparr>pp_position =
                \<lparr>px = px (position (path ! i))
                        + ((time - pt (path ! i)) / (pt (path ! Suc i) - pt (path ! i)))
                          * (px (position (path ! Suc i)) - px (position (path ! i))),
                 py = py (position (path ! i))
                        + ((time - pt (path ! i)) / (pt (path ! Suc i) - pt (path ! i)))
                          * (py (position (path ! Suc i)) - py (position (path ! i)))\<rparr>,
              pp_facing = facing (path ! i),
              velocity = distance (position (path ! i)) (position (path ! Suc i))
                           / (pt (path ! Suc i) - pt (path ! i))\<rparr>"
proof (induction path time rule: segments.induct)
  case (1 a b rest time)
  show ?case
  proof (cases "pt a \<le> time \<and> time \<le> pt b")
    case True
    then show ?thesis
      by (intro exI [of _ 0]) (simp add: Let_def)
  next
    case False
    with "1.prems" have nb: "\<not> time \<le> pt b" by simp
    with "1.prems" have len: "2 \<le> length (b # rest)" by (cases rest) auto
    from nb "1.prems" len have "\<exists>i. Suc i < length (b # rest)
     \<and> pt ((b # rest) ! i) \<le> time \<and> time \<le> pt ((b # rest) ! Suc i)
     \<and> (\<forall>j<i. \<not> time \<le> pt ((b # rest) ! Suc j))
     \<and> segments (b # rest) time =
         Inr \<lparr>pp_position =
                \<lparr>px = px (position ((b # rest) ! i))
                        + ((time - pt ((b # rest) ! i)) / (pt ((b # rest) ! Suc i) - pt ((b # rest) ! i)))
                          * (px (position ((b # rest) ! Suc i)) - px (position ((b # rest) ! i))),
                 py = py (position ((b # rest) ! i))
                        + ((time - pt ((b # rest) ! i)) / (pt ((b # rest) ! Suc i) - pt ((b # rest) ! i)))
                          * (py (position ((b # rest) ! Suc i)) - py (position ((b # rest) ! i)))\<rparr>,
              pp_facing = facing ((b # rest) ! i),
              velocity = distance (position ((b # rest) ! i)) (position ((b # rest) ! Suc i))
                           / (pt ((b # rest) ! Suc i) - pt ((b # rest) ! i))\<rparr>"
      by (intro "1.IH") (use False in auto)
    then obtain i where i: "Suc i < length (b # rest)"
      "pt ((b # rest) ! i) \<le> time" "time \<le> pt ((b # rest) ! Suc i)"
      "\<forall>j<i. \<not> time \<le> pt ((b # rest) ! Suc j)"
      "segments (b # rest) time =
         Inr \<lparr>pp_position =
                \<lparr>px = px (position ((b # rest) ! i))
                        + ((time - pt ((b # rest) ! i)) / (pt ((b # rest) ! Suc i) - pt ((b # rest) ! i)))
                          * (px (position ((b # rest) ! Suc i)) - px (position ((b # rest) ! i))),
                 py = py (position ((b # rest) ! i))
                        + ((time - pt ((b # rest) ! i)) / (pt ((b # rest) ! Suc i) - pt ((b # rest) ! i)))
                          * (py (position ((b # rest) ! Suc i)) - py (position ((b # rest) ! i)))\<rparr>,
              pp_facing = facing ((b # rest) ! i),
              velocity = distance (position ((b # rest) ! i)) (position ((b # rest) ! Suc i))
                           / (pt ((b # rest) ! Suc i) - pt ((b # rest) ! i))\<rparr>"
      by blast
    have first: "\<forall>j<Suc i. \<not> time \<le> pt ((a # b # rest) ! Suc j)"
    proof (intro allI impI)
      fix j assume "j < Suc i"
      then show "\<not> time \<le> pt ((a # b # rest) ! Suc j)"
        using nb i(4) by (cases j) auto
    qed
    show ?thesis
      using i(1,2,3,5) first nb
      by (intro exI [of _ "Suc i"]) simp
  qed
qed simp_all

lemma strict_first_last:
  "sorted_wrt (<) (xs :: real list) \<Longrightarrow> 2 \<le> length xs \<Longrightarrow> hd xs < last xs"
  by (cases xs) (auto simp: last_in_set)

lemma strict_adjacent:
  "sorted_wrt (<) (xs :: real list) \<Longrightarrow> Suc i < length xs \<Longrightarrow> xs ! i < xs ! Suc i"
  by (simp add: sorted_wrt_nth_less)

text \<open>
  C6. For a path of at least two points whose times strictly increase: before the
  first time the result is the first point's position with velocity 0; after the last
  time it is the last point's position with velocity 0; in between there is a segment
  \<open>i\<close> whose times enclose the given time (the first such segment), and the result is
  the linear interpolation of the position within that segment, with the segment's
  Euclidean length divided by its duration as velocity.
\<close>

theorem pathPosition_cases:
  assumes "2 \<le> length path" and "sorted_wrt (<) (map pt path)"
  shows "(time < pt (hd path) \<longrightarrow>
            pathPosition path time =
              Inr \<lparr>pp_position = position (hd path), pp_facing = facing (hd path), velocity = 0\<rparr>)
    \<and> (pt (last path) < time \<longrightarrow>
            pathPosition path time =
              Inr \<lparr>pp_position = position (last path), pp_facing = facing (last path),
                   velocity = 0\<rparr>)
    \<and> (pt (hd path) \<le> time \<and> time \<le> pt (last path) \<longrightarrow>
          (\<exists>i. Suc i < length path
             \<and> pt (path ! i) < pt (path ! Suc i)
             \<and> pt (path ! i) \<le> time \<and> time \<le> pt (path ! Suc i)
             \<and> (\<forall>j<i. \<not> time \<le> pt (path ! Suc j))
             \<and> pathPosition path time =
                 Inr \<lparr>pp_position =
                        \<lparr>px = px (position (path ! i))
                                + ((time - pt (path ! i)) / (pt (path ! Suc i) - pt (path ! i)))
                                  * (px (position (path ! Suc i)) - px (position (path ! i))),
                         py = py (position (path ! i))
                                + ((time - pt (path ! i)) / (pt (path ! Suc i) - pt (path ! i)))
                                  * (py (position (path ! Suc i)) - py (position (path ! i)))\<rparr>,
                      pp_facing = facing (path ! i),
                      velocity = distance (position (path ! i)) (position (path ! Suc i))
                                   / (pt (path ! Suc i) - pt (path ! i))\<rparr>))"
proof (intro conjI impI)
  have ne: "path \<noteq> []" using assms(1) by auto
  have hd0: "path ! 0 = hd path" using ne by (simp add: hd_conv_nth)
  have lastn: "path ! (length path - Suc 0) = last path" using ne by (simp add: last_conv_nth)
  have fl: "pt (hd path) < pt (last path)"
    using strict_first_last [OF assms(2)] assms(1) ne by (simp add: hd_map last_map)
  {
    assume "time < pt (hd path)"
    then show "pathPosition path time =
        Inr \<lparr>pp_position = position (hd path), pp_facing = facing (hd path), velocity = 0\<rparr>"
      using assms(1) by (simp add: pathPosition_def hd0 Let_def)
  }
  {
    assume "pt (last path) < time"
    then show "pathPosition path time =
        Inr \<lparr>pp_position = position (last path), pp_facing = facing (last path), velocity = 0\<rparr>"
      using assms(1) fl by (simp add: pathPosition_def hd0 lastn Let_def)
  }
  {
    assume a: "pt (hd path) \<le> time \<and> time \<le> pt (last path)"
    then have pp: "pathPosition path time = segments path time"
      using assms(1) by (simp add: pathPosition_def hd0 lastn Let_def)
    from a segments_enclosing [of path time] assms(1) hd0
    obtain i where i: "Suc i < length path" "pt (path ! i) \<le> time" "time \<le> pt (path ! Suc i)"
      "\<forall>j<i. \<not> time \<le> pt (path ! Suc j)"
      "segments path time =
         Inr \<lparr>pp_position =
                \<lparr>px = px (position (path ! i))
                        + ((time - pt (path ! i)) / (pt (path ! Suc i) - pt (path ! i)))
                          * (px (position (path ! Suc i)) - px (position (path ! i))),
                 py = py (position (path ! i))
                        + ((time - pt (path ! i)) / (pt (path ! Suc i) - pt (path ! i)))
                          * (py (position (path ! Suc i)) - py (position (path ! i)))\<rparr>,
              pp_facing = facing (path ! i),
              velocity = distance (position (path ! i)) (position (path ! Suc i))
                           / (pt (path ! Suc i) - pt (path ! i))\<rparr>"
      by auto
    have "pt (path ! i) < pt (path ! Suc i)"
      using strict_adjacent [OF assms(2), of i] i(1) by simp
    with i pp show "\<exists>i. Suc i < length path
             \<and> pt (path ! i) < pt (path ! Suc i)
             \<and> pt (path ! i) \<le> time \<and> time \<le> pt (path ! Suc i)
             \<and> (\<forall>j<i. \<not> time \<le> pt (path ! Suc j))
             \<and> pathPosition path time =
                 Inr \<lparr>pp_position =
                        \<lparr>px = px (position (path ! i))
                                + ((time - pt (path ! i)) / (pt (path ! Suc i) - pt (path ! i)))
                                  * (px (position (path ! Suc i)) - px (position (path ! i))),
                         py = py (position (path ! i))
                                + ((time - pt (path ! i)) / (pt (path ! Suc i) - pt (path ! i)))
                                  * (py (position (path ! Suc i)) - py (position (path ! i)))\<rparr>,
                      pp_facing = facing (path ! i),
                      velocity = distance (position (path ! i)) (position (path ! Suc i))
                                   / (pt (path ! Suc i) - pt (path ! i))\<rparr>"
      by (intro exI [of _ i]) simp
  }
qed

lemma sqrt_9: "sqrt 9 = 3"
  by (rule real_sqrt_unique) simp_all

theorem pathPosition_cases_witness:
  "2 \<le> length path_L \<and> sorted_wrt (<) (map pt path_L)
   \<and> pathPosition path_L (- 1) =
       Inr \<lparr>pp_position = \<lparr>px = 0, py = 0\<rparr>, pp_facing = \<lparr>dx = 1, dy = 0\<rparr>, velocity = 0\<rparr>
   \<and> pathPosition path_L 11 =
       Inr \<lparr>pp_position = \<lparr>px = 3, py = 4\<rparr>, pp_facing = \<lparr>dx = 0, dy = 1\<rparr>, velocity = 0\<rparr>
   \<and> pathPosition path_L 3 =
       Inr \<lparr>pp_position = \<lparr>px = 3 / 2, py = 0\<rparr>, pp_facing = \<lparr>dx = 1, dy = 0\<rparr>,
            velocity = 1 / 2\<rparr>"
proof -
  have h: "2 \<le> length path_L" "sorted_wrt (<) (map pt path_L)"
    by (simp_all add: path_L_def)
  have e: "hd path_L = \<lparr>position = \<lparr>px = 0, py = 0\<rparr>, facing = \<lparr>dx = 1, dy = 0\<rparr>, pt = 0\<rparr>"
    "last path_L = \<lparr>position = \<lparr>px = 3, py = 4\<rparr>, facing = \<lparr>dx = 0, dy = 1\<rparr>, pt = 10\<rparr>"
    "path_L ! 0 = \<lparr>position = \<lparr>px = 0, py = 0\<rparr>, facing = \<lparr>dx = 1, dy = 0\<rparr>, pt = 0\<rparr>"
    "path_L ! Suc 0 = \<lparr>position = \<lparr>px = 3, py = 0\<rparr>, facing = \<lparr>dx = 0, dy = 1\<rparr>, pt = 6\<rparr>"
    "path_L ! Suc (Suc 0) = \<lparr>position = \<lparr>px = 3, py = 4\<rparr>, facing = \<lparr>dx = 0, dy = 1\<rparr>, pt = 10\<rparr>"
    "length path_L = 3"
    by (simp_all add: path_L_def)
  have 1: "pathPosition path_L (- 1) =
       Inr \<lparr>pp_position = \<lparr>px = 0, py = 0\<rparr>, pp_facing = \<lparr>dx = 1, dy = 0\<rparr>, velocity = 0\<rparr>"
    using pathPosition_cases [OF h, of "- 1"] by (simp add: e)
  have 2: "pathPosition path_L 11 =
       Inr \<lparr>pp_position = \<lparr>px = 3, py = 4\<rparr>, pp_facing = \<lparr>dx = 0, dy = 1\<rparr>, velocity = 0\<rparr>"
    using pathPosition_cases [OF h, of 11] by (simp add: e)
  have d: "distance \<lparr>px = 0, py = 0\<rparr> \<lparr>px = 3, py = 0\<rparr> = 3"
    by (simp add: distance_def sqrt_9)
  from pathPosition_cases [OF h, of 3]
  obtain i where i: "Suc i < length path_L" "pt (path_L ! i) \<le> 3" "3 \<le> pt (path_L ! Suc i)"
    "pathPosition path_L 3 =
                 Inr \<lparr>pp_position =
                        \<lparr>px = px (position (path_L ! i))
                                + ((3 - pt (path_L ! i)) / (pt (path_L ! Suc i) - pt (path_L ! i)))
                                  * (px (position (path_L ! Suc i)) - px (position (path_L ! i))),
                         py = py (position (path_L ! i))
                                + ((3 - pt (path_L ! i)) / (pt (path_L ! Suc i) - pt (path_L ! i)))
                                  * (py (position (path_L ! Suc i)) - py (position (path_L ! i)))\<rparr>,
                      pp_facing = facing (path_L ! i),
                      velocity = distance (position (path_L ! i)) (position (path_L ! Suc i))
                                   / (pt (path_L ! Suc i) - pt (path_L ! i))\<rparr>"
    by (auto simp: e)
  from i(1) have "i = 0 \<or> i = Suc 0" by (auto simp: e)
  with i(2) have "i = 0" by (auto simp: e)
  with i(4) have 3: "pathPosition path_L 3 =
       Inr \<lparr>pp_position = \<lparr>px = 3 / 2, py = 0\<rparr>, pp_facing = \<lparr>dx = 1, dy = 0\<rparr>,
            velocity = 1 / 2\<rparr>"
    by (simp add: e d)
  show ?thesis using h 1 2 3 by blast
qed

section \<open>retryWithBackoff\<close>

lemma retry_loop_props:
  assumes "retry_loop fn i i (take i RETRY_BACKOFF) = (res, n, ws)"
    and "i \<le> length RETRY_BACKOFF"
    and "\<forall>k<i. \<exists>e. fn k = Throws e \<and> retry e"
  shows "i < n \<and> n \<le> Suc (length RETRY_BACKOFF)
    \<and> (\<forall>k<n - 1. \<exists>e. fn k = Throws e \<and> retry e)
    \<and> ws = take (n - 1) RETRY_BACKOFF
    \<and> (case res of
          Inr r \<Rightarrow> retries r = n - 1 \<and> fn (n - 1) = Returns (result r)
        | Inl err \<Rightarrow> \<exists>e. fn (n - 1) = Throws e \<and> err = Propagated (rethrown e)
                       \<and> (\<not> retry e \<or> n = Suc (length RETRY_BACKOFF)))"
  using assms
proof (induction "length RETRY_BACKOFF - i" arbitrary: i)
  case 0
  then have i: "i = length RETRY_BACKOFF" by simp
  show ?case
  proof (cases "fn i")
    case (Returns r)
    with "0.prems" i show ?thesis by (auto simp: retry_loop.simps [of fn i])
  next
    case (Throws e)
    with "0.prems" i show ?thesis by (auto simp: retry_loop.simps [of fn i])
  qed
next
  case (Suc d)
  then have i: "i < length RETRY_BACKOFF" by simp
  show ?case
  proof (cases "fn i")
    case (Returns r)
    with Suc.prems i show ?thesis by (auto simp: retry_loop.simps [of fn i])
  next
    case (Throws e)
    show ?thesis
    proof (cases "retry e")
      case False
      with Throws Suc.prems i show ?thesis by (auto simp: retry_loop.simps [of fn i])
    next
      case True
      have tk: "take i RETRY_BACKOFF @ [RETRY_BACKOFF ! i] = take (Suc i) RETRY_BACKOFF"
        using i by (simp add: take_Suc_conv_app_nth)
      have step: "retry_loop fn (Suc i) (Suc i) (take (Suc i) RETRY_BACKOFF) = (res, n, ws)"
        using Suc.prems(1) Throws True i tk by (simp add: retry_loop.simps [of fn i])
      have prev: "\<forall>k<Suc i. \<exists>e. fn k = Throws e \<and> retry e"
        using Suc.prems(3) Throws True by (auto simp: less_Suc_eq)
      have d: "d = length RETRY_BACKOFF - Suc i" using Suc.hyps(2) by simp
      have le: "Suc i \<le> length RETRY_BACKOFF" using i by simp
      from Suc.hyps(1) [OF d step le prev]
      show ?thesis by auto
    qed
  qed
qed

lemma retry_chatCompletion_attempt:
  "(\<exists>e. chatCompletion_attempt response = Throws e \<and> retry e)
     \<longleftrightarrow> \<not> ok response \<and> (status response = 429 \<or> status response \<ge> 500)"
  by (auto simp: chatCompletion_attempt_def split: option.splits)

text \<open>
  C8. Whatever the wrapped operation does on its successive invocations,
  \<^verbatim>\<open>retryWithBackoff\<close> invokes it at least once and at most four times; every invocation
  but the last threw a failure marked retriable, and the waits between them are the
  first entries of \<^verbatim>\<open>RETRY_BACKOFF\<close>; on success \<^verbatim>\<open>retries\<close> is the number of failed
  invocations before the successful one; a failure is propagated from the last
  invocation, which either was not marked retriable or was the fourth. An attempt of
  \<^verbatim>\<open>chatCompletion\<close> throws a failure marked retriable exactly when the response is not
  ok and its status is 429 or at least 500.
\<close>

theorem retryWithBackoff_at_most_four:
  assumes "retryWithBackoff fn = (res, n, ws)"
  shows "1 \<le> n \<and> n \<le> 4
    \<and> (\<forall>k<n - 1. \<exists>e. fn k = Throws e \<and> retry e)
    \<and> ws = take (n - 1) RETRY_BACKOFF
    \<and> (case res of
          Inr r \<Rightarrow> retries r = n - 1 \<and> fn (n - 1) = Returns (result r)
        | Inl err \<Rightarrow> \<exists>e. fn (n - 1) = Throws e \<and> err = Propagated (rethrown e)
                       \<and> (\<not> retry e \<or> n = 4))
    \<and> ((\<exists>e. chatCompletion_attempt response = Throws e \<and> retry e)
         \<longleftrightarrow> \<not> ok response \<and> (status response = 429 \<or> status response \<ge> 500))"
proof -
  have "retry_loop fn 0 0 (take 0 RETRY_BACKOFF) = (res, n, ws)"
    using assms by (simp add: retryWithBackoff_def)
  moreover have len: "Suc (length RETRY_BACKOFF) = 4"
    by (simp add: RETRY_BACKOFF_def)
  ultimately have "0 < n \<and> n \<le> 4
    \<and> (\<forall>k<n - 1. \<exists>e. fn k = Throws e \<and> retry e)
    \<and> ws = take (n - 1) RETRY_BACKOFF
    \<and> (case res of
          Inr r \<Rightarrow> retries r = n - 1 \<and> fn (n - 1) = Returns (result r)
        | Inl err \<Rightarrow> \<exists>e. fn (n - 1) = Throws e \<and> err = Propagated (rethrown e)
                       \<and> (\<not> retry e \<or> n = 4))"
    using retry_loop_props [of fn 0 res n ws] unfolding len by simp
  then show ?thesis
    using retry_chatCompletion_attempt [of response] by (simp add: Suc_le_eq)
qed

lemma retryWithBackoff_flaky:
  "retryWithBackoff flaky = (Inr \<lparr>retries = 2, result = ''hi''\<rparr>, 3, [1000, 10000])"
  by (simp add: retryWithBackoff_def retry_loop.simps flaky_def chatCompletion_attempt_def
      RETRY_BACKOFF_def)

lemma retryWithBackoff_forbidden:
  "retryWithBackoff forbidden = (Inl (Propagated (ChatCompletionFailed 403)), 1, [])"
  by (simp add: retryWithBackoff_def retry_loop.simps forbidden_def chatCompletion_attempt_def
      RETRY_BACKOFF_def)

theorem retryWithBackoff_at_most_four_witness:
  "retryWithBackoff flaky = (Inr \<lparr>retries = 2, result = ''hi''\<rparr>, 3, [1000, 10000])
   \<and> (\<exists>e. flaky 0 = Throws e \<and> retry e) \<and> (\<exists>e. flaky 1 = Throws e \<and> retry e)
   \<and> flaky 2 = Returns ''hi''
   \<and> retryWithBackoff forbidden = (Inl (Propagated (ChatCompletionFailed 403)), 1, [])
   \<and> (\<exists>e. forbidden 0 = Throws e \<and> \<not> retry e)"
proof -
  note F = retryWithBackoff_at_most_four [OF retryWithBackoff_flaky]
  note G = retryWithBackoff_at_most_four [OF retryWithBackoff_forbidden]
  from F have a: "\<forall>k<2. \<exists>e. flaky k = Throws e \<and> retry e" by simp
  from a [rule_format, of 0] have 0: "\<exists>e. flaky 0 = Throws e \<and> retry e" by simp
  from a [rule_format, of 1] have 1: "\<exists>e. flaky 1 = Throws e \<and> retry e" by simp
  from F have 2: "flaky 2 = Returns ''hi''" by simp
  from G have 3: "\<exists>e. forbidden 0 = Throws e \<and> \<not> retry e" by auto
  show ?thesis
    using retryWithBackoff_flaky retryWithBackoff_forbidden 0 1 2 3 by blast
qed

section \<open>ChatCompletionContent.read\<close>

text \<open>
  C4 fails on the code. With the stop words \<^verbatim>\<open>Kira:\<close> and \<^verbatim>\<open>kira:\<close> (in this order, as
  \<^verbatim>\<open>stopWords\<close> builds them) and the single chunk \<^verbatim>\<open>kira: hi Kira: yo\<close>, the loop over
  the stop words returns at the first listed stop word that occurs, \<^verbatim>\<open>Kira:\<close> at index
  9, and yields the text before it, which holds the complete stop word \<^verbatim>\<open>kira:\<close>; the
  content truncated before the first occurrence of any stop word is empty.
\<close>

theorem read_leaks_stop_word:
  "readAll [''Kira:'', ''kira:''] [''kira: hi Kira: yo''] = ''kira: hi ''
   \<and> indexOf (readAll [''Kira:'', ''kira:''] [''kira: hi Kira: yo'']) ''kira:'' = Some 0
   \<and> truncated_spec [''Kira:'', ''kira:''] (concat [''kira: hi Kira: yo'']) = ''''"
  by (simp add: readAll_def read_def truncated_spec_def)

section \<open>findRoute\<close>

lemma lookup_all_agree:
  "(\<forall>i. lookupLocation g1 now i = lookupLocation g2 now i) \<Longrightarrow>
   lookup_all g1 now ps = lookup_all g2 now ps"
  by (induction ps) (simp_all split: option.splits sum.splits)

lemma blocked_agree:
  assumes "allPlayers g1 = allPlayers g2" "gameMap g1 = gameMap g2"
    and "\<forall>i. lookupLocation g1 now i = lookupLocation g2 now i"
  shows "blocked g1 now pos pid = blocked g2 now pos pid"
  by (simp only: blocked_def assms(1,2) lookup_all_agree [OF assms(3)])

lemma explore_loop_agree:
  assumes "allPlayers g1 = allPlayers g2" "gameMap g1 = gameMap g2"
    and "\<forall>i. lookupLocation g1 now i = lookupLocation g2 now i"
  shows "explore_loop g1 now player destination speed current ns minD
       = explore_loop g2 now player destination speed current ns minD"
proof (induction ns arbitrary: minD)
  case Nil
  then show ?case by simp
next
  case (Cons n ns)
  obtain pos fac where n: "n = (pos, fac)" by (cases n)
  show ?case
    unfolding n
    by (simp only: explore_loop.simps blocked_agree [OF assms] Cons.IH)
qed

lemma findRoute_loop_agree:
  assumes "allPlayers g1 = allPlayers g2" "gameMap g1 = gameMap g2"
    and "\<forall>i. lookupLocation g1 now i = lookupLocation g2 now i"
  shows "findRoute_loop fuel g1 now player destination speed cur best heap minD visited
       = findRoute_loop fuel g2 now player destination speed cur best heap minD visited"
proof (induction fuel arbitrary: cur best heap minD visited)
  case 0
  then show ?case by simp
next
  case (Suc fuel)
  show ?case
  proof (cases cur)
    case None
    then show ?thesis by simp
  next
    case (Some c)
    have e: "explore g1 now player destination speed c minD
           = explore g2 now player destination speed c minD"
      by (simp add: explore_def explore_loop_agree [OF assms])
    show ?thesis
      unfolding Some
      by (simp only: findRoute_loop.simps e Suc.IH)
  qed
qed

text \<open>
  C1, as the code has it. The blocked test of every candidate is made with the query
  time \<open>now\<close>: two games with the same players and map whose location lookups agree
  at time \<open>now\<close> (and may differ at every other time, the candidates' arrival times
  included) give the same route.
\<close>

theorem findRoute_reads_positions_at_now:
  assumes "allPlayers g1 = allPlayers g2" and "gameMap g1 = gameMap g2"
    and "\<forall>i. lookupLocation g1 now i = lookupLocation g2 now i"
  shows "findRoute fuel g1 now player destination speed
       = findRoute fuel g2 now player destination speed"
  by (simp only: findRoute_def assms(3) findRoute_loop_agree [OF assms])

lemma distance_axis_x [simp]: "distance \<lparr>px = a, py = c\<rparr> \<lparr>px = b, py = c\<rparr> = \<bar>a - b\<bar>"
  by (simp add: distance_def)

lemma blocked_met_now:
  "blocked town_met 0 \<lparr>px = 1, py = 0\<rparr> (Some ''p1'') = Inr (Some ''player'')"
  by (simp add: blocked_def town_met_def player1_def player2_def at_origin_def corridor_def
      blockedWithPositions_def tile_blocked_def COLLISION_THRESHOLD_def)

lemma blocked_met_arrival:
  "blocked town_met 1000 \<lparr>px = 1, py = 0\<rparr> (Some ''p1'') = Inr None"
  by (simp add: blocked_def town_met_def player1_def player2_def at_origin_def corridor_def
      blockedWithPositions_def tile_blocked_def COLLISION_THRESHOLD_def)

lemma blocked_met_out:
  "blocked town_met 0 \<lparr>px = - 1, py = 0\<rparr> (Some ''p1'') = Inr (Some ''out of bounds'')"
  "blocked town_met 0 \<lparr>px = 0, py = 1\<rparr> (Some ''p1'') = Inr (Some ''out of bounds'')"
  "blocked town_met 0 \<lparr>px = 0, py = - 1\<rparr> (Some ''p1'') = Inr (Some ''out of bounds'')"
  by (simp_all add: blocked_def town_met_def player1_def player2_def at_origin_def corridor_def
      blockedWithPositions_def tile_blocked_def COLLISION_THRESHOLD_def)

lemma start0_eq:
  "start0 \<lparr>px = 2, py = 0\<rparr>
     = PathCandidate \<lparr>px = 0, py = 0\<rparr> \<lparr>dx = 1, dy = 0\<rparr> 0 0 2 None"
  by (simp add: start0_def startCandidate_def at_origin_def manhattanDistance_def)

lemma explore_met:
  "explore town_met 0 player1 \<lparr>px = 2, py = 0\<rparr> 1 (start0 \<lparr>px = 2, py = 0\<rparr>) Map.empty
     = Inr ([], Map.empty)"
  by (simp add: explore_def neighbors_def start0_eq blocked_met_now blocked_met_out player1_def)

lemma findRoute_loop_best:
  assumes "findRoute_loop fuel game now player destination speed cur best heap minD visited
             = Some (Inr (cur', best', visited'))"
    and "best \<in> set visited \<or> (visited = [] \<and> cur = Some best)"
    and "\<forall>c\<in>set visited. manhattanDistance (c_position best) destination
                            \<le> manhattanDistance (c_position c) destination"
  shows "(cur' = None \<longrightarrow> best' \<in> set visited'
            \<and> (\<forall>c\<in>set visited'. manhattanDistance (c_position best') destination
                                   \<le> manhattanDistance (c_position c) destination))
       \<and> (\<forall>c. cur' = Some c \<longrightarrow> pointsEqual (c_position c) destination)
       \<and> (\<exists>more. visited' = visited @ more)"
  using assms
proof (induction fuel arbitrary: cur best heap minD visited)
  case 0
  then show ?case by simp
next
  case (Suc fuel)
  show ?case
  proof (cases cur)
    case None
    with Suc.prems show ?thesis by auto
  next
    case (Some c)
    show ?thesis
    proof (cases "pointsEqual (c_position c) destination")
      case True
      with Suc.prems Some show ?thesis by auto
    next
      case False
      define b where "b = (if manhattanDistance (c_position c) destination
                     < manhattanDistance (c_position best) destination
                then c else best)"
      from Suc.prems(1) Some False
      obtain cands minD' h1 nxt h2 where
        step: "findRoute_loop fuel game now player destination speed nxt b h2 minD'
                 (visited @ [c]) = Some (Inr (cur', best', visited'))"
        by (auto simp: b_def Let_def split: sum.splits option.splits prod.splits)
      have in_v: "b \<in> set (visited @ [c])"
        using Suc.prems(2) Some by (auto simp: b_def)
      have min_v: "\<forall>x\<in>set (visited @ [c]). manhattanDistance (c_position b) destination
                            \<le> manhattanDistance (c_position x) destination"
        using Suc.prems(2,3) Some by (auto simp: b_def)
      from Suc.IH [OF step _ min_v] in_v
      show ?thesis by auto
    qed
  qed
qed

lemma last_densePath:
  "densePath c \<noteq> [] \<and> position (last (densePath c)) = c_position c
   \<and> pt (last (densePath c)) = c_t c \<and> facing (last (densePath c)) = c_facing c"
  by (cases c) (simp add: densePath_def)

text \<open>
  C5. Let the main loop of \<^verbatim>\<open>findRoute\<close> end, within the fuel and without an error, with
  \<^verbatim>\<open>current\<close>, \<^verbatim>\<open>bestCandidate\<close> and the candidates \<open>visited\<close> that were \<^verbatim>\<open>current\<close> before.
  If \<^verbatim>\<open>current\<close> is undefined (the open set emptied), \<^verbatim>\<open>bestCandidate\<close> is a visited
  candidate of minimum Manhattan distance to the destination; \<^verbatim>\<open>findRoute\<close> returns
  \<^verbatim>\<open>null\<close> when its length is 0, and otherwise a path whose last node is that candidate,
  with \<^verbatim>\<open>newDestination\<close> its position. If \<^verbatim>\<open>current\<close> is defined, its position is the
  destination, it is the last node of the returned path and \<^verbatim>\<open>newDestination\<close> is \<^verbatim>\<open>null\<close>.
\<close>

theorem findRoute_outcome:
  assumes "lookupLocation game now (locationId player) = Some loc"
    and "findRoute_loop fuel game now player destination speed
           (Some (startCandidate loc now destination)) (startCandidate loc now destination)
           new_MinHeap Map.empty [] = Some (Inr (cur, best, visited))"
  shows "(cur = None \<longrightarrow>
            best \<in> set visited
          \<and> (\<forall>c\<in>set visited. manhattanDistance (c_position best) destination
                                 \<le> manhattanDistance (c_position c) destination)
          \<and> (c_length best = 0 \<longrightarrow>
                findRoute fuel game now player destination speed = Some (Inr None))
          \<and> (c_length best \<noteq> 0 \<longrightarrow>
                (\<exists>p. findRoute fuel game now player destination speed
                        = Some (Inr (Some \<lparr>route_path = p,
                                           newDestination = Some (c_position best)\<rparr>))
                   \<and> p \<noteq> [] \<and> position (last p) = c_position best
                   \<and> pt (last p) = c_t best)))
     \<and> (\<forall>c. cur = Some c \<longrightarrow>
            pointsEqual (c_position c) destination
          \<and> (\<exists>p. findRoute fuel game now player destination speed
                    = Some (Inr (Some \<lparr>route_path = p, newDestination = None\<rparr>))
               \<and> p \<noteq> [] \<and> position (last p) = c_position c))"
proof -
  note B = findRoute_loop_best [OF assms(2)]
  have fr: "findRoute fuel game now player destination speed =
      (case cur of
         None \<Rightarrow> if c_length best = 0 then Some (Inr None)
                 else Some (Inr (Some \<lparr>route_path = densePath best,
                                        newDestination = Some (c_position best)\<rparr>))
       | Some reached \<Rightarrow>
           Some (Inr (Some \<lparr>route_path = densePath reached, newDestination = None\<rparr>)))"
    using assms by (simp add: findRoute_def Let_def split: option.splits)
  show ?thesis
    using B fr last_densePath [of best] last_densePath
    by (auto split: option.splits)
qed

lemma pop_empty: "pop compare new_MinHeap = Some (None, new_MinHeap)"
  by (simp add: pop_def new_MinHeap_def)

lemma loop_met:
  "findRoute_loop (Suc (Suc 0)) town_met 0 player1 \<lparr>px = 2, py = 0\<rparr> 1
     (Some (start0 \<lparr>px = 2, py = 0\<rparr>)) (start0 \<lparr>px = 2, py = 0\<rparr>) new_MinHeap Map.empty []
   = Some (Inr (None, start0 \<lparr>px = 2, py = 0\<rparr>, [start0 \<lparr>px = 2, py = 0\<rparr>]))"
  by (simp add: explore_met pop_empty)
     (simp add: start0_eq pointsEqual_def)

lemma lookup_met: "lookupLocation town_met 0 (locationId player1) = Some at_origin"
  by (simp add: town_met_def player1_def)

lemma findRoute_met:
  "findRoute (Suc (Suc 0)) town_met 0 player1 \<lparr>px = 2, py = 0\<rparr> 1 = Some (Inr None)"
  using loop_met
  by (simp add: findRoute_def lookup_met start0_def [symmetric])
     (simp add: start0_eq)

lemma start0_wall: "start0 \<lparr>px = 3, py = 0\<rparr> = wall_s"
  by (simp add: start0_def startCandidate_def at_origin_def manhattanDistance_def wall_s_def)

lemma blocked_wall:
  "blocked town_wall 0 \<lparr>px = 1, py = 0\<rparr> (Some ''p1'') = Inr None"
  "blocked town_wall 0 \<lparr>px = 0, py = 0\<rparr> (Some ''p1'') = Inr None"
  "blocked town_wall 0 \<lparr>px = 2, py = 0\<rparr> (Some ''p1'') = Inr (Some ''world blocked'')"
  "blocked town_wall 0 \<lparr>px = - 1, py = 0\<rparr> (Some ''p1'') = Inr (Some ''out of bounds'')"
  "blocked town_wall 0 \<lparr>px = x, py = 1\<rparr> (Some ''p1'') = Inr (Some ''out of bounds'')"
  "blocked town_wall 0 \<lparr>px = x, py = - 1\<rparr> (Some ''p1'') = Inr (Some ''out of bounds'')"
  by (simp_all add: blocked_def town_wall_def player1_def at_origin_def
      blockedWithPositions_def tile_blocked_def COLLISION_THRESHOLD_def)

lemma explore_wall_s:
  "explore town_wall 0 player1 \<lparr>px = 3, py = 0\<rparr> 1 wall_s Map.empty
     = Inr ([wall_c1], [(0, 1) \<mapsto> wall_c1])"
  by (simp add: explore_def neighbors_def wall_s_def wall_c1_def blocked_wall player1_def
      manhattanDistance_def Let_def)

lemma explore_wall_c1:
  "explore town_wall 0 player1 \<lparr>px = 3, py = 0\<rparr> 1 wall_c1 [(0, 1) \<mapsto> wall_c1]
     = Inr ([wall_c0], [(0, 1) \<mapsto> wall_c1, (0, 0) \<mapsto> wall_c0])"
  by (simp add: explore_def neighbors_def wall_c1_def wall_c0_def blocked_wall player1_def
      manhattanDistance_def Let_def)

lemma explore_wall_c0:
  "explore town_wall 0 player1 \<lparr>px = 3, py = 0\<rparr> 1 wall_c0
       [(0, 1) \<mapsto> wall_c1, (0, 0) \<mapsto> wall_c0]
     = Inr ([], [(0, 1) \<mapsto> wall_c1, (0, 0) \<mapsto> wall_c0])"
  by (simp add: explore_def neighbors_def wall_c0_def wall_c1_def blocked_wall player1_def
      manhattanDistance_def Let_def)

lemma push_first: "push compare a new_MinHeap = Some \<lparr>tree = [None, Some a], endIndex = 2\<rparr>"
  by (simp add: push_def new_MinHeap_def push_loop.simps js_set_def)

lemma pop_single:
  "pop compare \<lparr>tree = [None, Some a], endIndex = 2\<rparr>
     = Some (Some a, \<lparr>tree = [None, Some a], endIndex = Suc 0\<rparr>)"
  by (simp add: pop_def pop_loop.simps js_get_def js_set_def)

lemma push_again:
  "push compare b \<lparr>tree = [None, Some a], endIndex = Suc 0\<rparr>
     = Some \<lparr>tree = [None, Some b], endIndex = 2\<rparr>"
  by (simp add: push_def push_loop.simps js_set_def)

lemma pop_drained:
  "pop compare \<lparr>tree = [None, Some a], endIndex = Suc 0\<rparr>
     = Some (None, \<lparr>tree = [None, Some a], endIndex = Suc 0\<rparr>)"
  by (simp add: pop_def)

lemma loop_wall:
  "findRoute_loop (Suc (Suc (Suc (Suc 0)))) town_wall 0 player1 \<lparr>px = 3, py = 0\<rparr> 1
     (Some wall_s) wall_s new_MinHeap Map.empty []
   = Some (Inr (None, wall_c1, [wall_s, wall_c1, wall_c0]))"
proof -
  have p: "\<not> pointsEqual (c_position wall_s) \<lparr>px = 3, py = 0\<rparr>"
    "\<not> pointsEqual (c_position wall_c1) \<lparr>px = 3, py = 0\<rparr>"
    "\<not> pointsEqual (c_position wall_c0) \<lparr>px = 3, py = 0\<rparr>"
    by (simp_all add: pointsEqual_def wall_s_def wall_c1_def wall_c0_def)
  have m: "manhattanDistance (c_position wall_s) \<lparr>px = 3, py = 0\<rparr> = 3"
    "manhattanDistance (c_position wall_c1) \<lparr>px = 3, py = 0\<rparr> = 2"
    "manhattanDistance (c_position wall_c0) \<lparr>px = 3, py = 0\<rparr> = 3"
    by (simp_all add: manhattanDistance_def wall_s_def wall_c1_def wall_c0_def)
  show ?thesis
    by (simp add: p m explore_wall_s explore_wall_c1 explore_wall_c0
        push_first pop_single push_again pop_drained)
qed

lemma start0_alone: "start0 \<lparr>px = 2, py = 0\<rparr> = alone_s"
  by (simp add: start0_eq alone_s_def)

lemma blocked_alone:
  "blocked town_alone 0 \<lparr>px = 1, py = 0\<rparr> (Some ''p1'') = Inr None"
  "blocked town_alone 0 \<lparr>px = 0, py = 0\<rparr> (Some ''p1'') = Inr None"
  "blocked town_alone 0 \<lparr>px = 2, py = 0\<rparr> (Some ''p1'') = Inr None"
  "blocked town_alone 0 \<lparr>px = - 1, py = 0\<rparr> (Some ''p1'') = Inr (Some ''out of bounds'')"
  "blocked town_alone 0 \<lparr>px = x, py = 1\<rparr> (Some ''p1'') = Inr (Some ''out of bounds'')"
  "blocked town_alone 0 \<lparr>px = x, py = - 1\<rparr> (Some ''p1'') = Inr (Some ''out of bounds'')"
  by (simp_all add: blocked_def town_alone_def player1_def at_origin_def corridor_def
      blockedWithPositions_def tile_blocked_def COLLISION_THRESHOLD_def)

lemma explore_alone_s:
  "explore town_alone 0 player1 \<lparr>px = 2, py = 0\<rparr> 1 alone_s Map.empty
     = Inr ([alone_c1], [(0, 1) \<mapsto> alone_c1])"
  by (simp add: explore_def neighbors_def alone_s_def alone_c1_def blocked_alone player1_def
      manhattanDistance_def Let_def)

lemma explore_alone_c1:
  "explore town_alone 0 player1 \<lparr>px = 2, py = 0\<rparr> 1 alone_c1 [(0, 1) \<mapsto> alone_c1]
     = Inr ([alone_c2, alone_c0],
            [(0, 1) \<mapsto> alone_c1, (0, 2) \<mapsto> alone_c2, (0, 0) \<mapsto> alone_c0])"
  by (simp add: explore_def neighbors_def alone_c1_def alone_c2_def alone_c0_def blocked_alone
      player1_def manhattanDistance_def Let_def)

lemma push_second:
  "compare b a \<Longrightarrow>
   push compare b \<lparr>tree = [None, Some a], endIndex = 2\<rparr>
     = Some \<lparr>tree = [None, Some a, Some b], endIndex = 3\<rparr>"
  by (simp add: push_def push_loop.simps js_get_def js_set_def compare_slots_def)

lemma pop_two:
  "pop compare \<lparr>tree = [None, Some a, Some b], endIndex = 3\<rparr>
     = Some (Some a, \<lparr>tree = [None, Some b, Some b], endIndex = 2\<rparr>)"
  by (simp add: pop_def pop_loop.simps js_get_def js_set_def)

lemma loop_alone:
  "findRoute_loop (Suc (Suc (Suc 0))) town_alone 0 player1 \<lparr>px = 2, py = 0\<rparr> 1
     (Some alone_s) alone_s new_MinHeap Map.empty []
   = Some (Inr (Some alone_c2, alone_c1, [alone_s, alone_c1]))"
proof -
  have p: "\<not> pointsEqual (c_position alone_s) \<lparr>px = 2, py = 0\<rparr>"
    "\<not> pointsEqual (c_position alone_c1) \<lparr>px = 2, py = 0\<rparr>"
    "pointsEqual (c_position alone_c2) \<lparr>px = 2, py = 0\<rparr>"
    by (simp_all add: pointsEqual_def alone_s_def alone_c1_def alone_c2_def)
  have m: "manhattanDistance (c_position alone_s) \<lparr>px = 2, py = 0\<rparr> = 2"
    "manhattanDistance (c_position alone_c1) \<lparr>px = 2, py = 0\<rparr> = 1"
    by (simp_all add: manhattanDistance_def alone_s_def alone_c1_def)
  have c: "costlier alone_c0 alone_c2"
    by (simp add: costlier_def alone_c0_def alone_c2_def)
  show ?thesis
    by (simp add: p m explore_alone_s explore_alone_c1
        push_first pop_single push_again push_second [of costlier alone_c0 alone_c2, OF c] pop_two)
qed

lemma lookup_origin:
  "lookupLocation town_alone 0 (locationId player1) = Some at_origin"
  "lookupLocation town_wall 0 (locationId player1) = Some at_origin"
  by (simp_all add: town_alone_def town_wall_def player1_def)

theorem findRoute_outcome_witness:
  "findRoute_loop (Suc (Suc (Suc (Suc 0)))) town_wall 0 player1 \<lparr>px = 3, py = 0\<rparr> 1
     (Some wall_s) wall_s new_MinHeap Map.empty []
     = Some (Inr (None, wall_c1, [wall_s, wall_c1, wall_c0]))
   \<and> c_length wall_c1 \<noteq> 0
   \<and> (\<exists>p. findRoute (Suc (Suc (Suc (Suc 0)))) town_wall 0 player1 \<lparr>px = 3, py = 0\<rparr> 1
              = Some (Inr (Some \<lparr>route_path = p, newDestination = Some \<lparr>px = 1, py = 0\<rparr>\<rparr>))
         \<and> position (last p) = \<lparr>px = 1, py = 0\<rparr> \<and> pt (last p) = 1000)
   \<and> findRoute_loop (Suc (Suc 0)) town_met 0 player1 \<lparr>px = 2, py = 0\<rparr> 1
        (Some alone_s) alone_s new_MinHeap Map.empty [] = Some (Inr (None, alone_s, [alone_s]))
   \<and> c_length alone_s = 0
   \<and> findRoute (Suc (Suc 0)) town_met 0 player1 \<lparr>px = 2, py = 0\<rparr> 1 = Some (Inr None)
   \<and> findRoute_loop (Suc (Suc (Suc 0))) town_alone 0 player1 \<lparr>px = 2, py = 0\<rparr> 1
        (Some alone_s) alone_s new_MinHeap Map.empty []
        = Some (Inr (Some alone_c2, alone_c1, [alone_s, alone_c1]))
   \<and> (\<exists>p. findRoute (Suc (Suc (Suc 0))) town_alone 0 player1 \<lparr>px = 2, py = 0\<rparr> 1
              = Some (Inr (Some \<lparr>route_path = p, newDestination = None\<rparr>))
         \<and> position (last p) = \<lparr>px = 2, py = 0\<rparr>)"
proof -
  have sw: "startCandidate at_origin 0 \<lparr>px = 3, py = 0\<rparr> = wall_s"
    using start0_wall by (simp add: start0_def)
  have sa: "startCandidate at_origin 0 \<lparr>px = 2, py = 0\<rparr> = alone_s"
    using start0_alone by (simp add: start0_def)
  have lm: "findRoute_loop (Suc (Suc 0)) town_met 0 player1 \<lparr>px = 2, py = 0\<rparr> 1
        (Some alone_s) alone_s new_MinHeap Map.empty [] = Some (Inr (None, alone_s, [alone_s]))"
    using loop_met by (simp only: start0_alone)
  note W = findRoute_outcome [where destination = "\<lparr>px = 3, py = 0\<rparr>" and speed = 1
      and fuel = "Suc (Suc (Suc (Suc 0)))", OF lookup_origin(2), unfolded sw, OF loop_wall]
  note M = findRoute_outcome [where destination = "\<lparr>px = 2, py = 0\<rparr>" and speed = 1
      and fuel = "Suc (Suc 0)", OF lookup_met, unfolded sa, OF lm]
  note A = findRoute_outcome [where destination = "\<lparr>px = 2, py = 0\<rparr>" and speed = 1
      and fuel = "Suc (Suc (Suc 0))", OF lookup_origin(1), unfolded sa, OF loop_alone]
  have lw: "c_length wall_c1 \<noteq> 0" "c_position wall_c1 = \<lparr>px = 1, py = 0\<rparr>" "c_t wall_c1 = 1000"
    by (simp_all add: wall_c1_def)
  have la: "c_length alone_s = 0" "c_position alone_c2 = \<lparr>px = 2, py = 0\<rparr>"
    by (simp_all add: alone_s_def alone_c2_def)
  from W lw have 1: "\<exists>p. findRoute (Suc (Suc (Suc (Suc 0)))) town_wall 0 player1 \<lparr>px = 3, py = 0\<rparr> 1
              = Some (Inr (Some \<lparr>route_path = p, newDestination = Some \<lparr>px = 1, py = 0\<rparr>\<rparr>))
         \<and> position (last p) = \<lparr>px = 1, py = 0\<rparr> \<and> pt (last p) = 1000"
    by auto
  from M la have 2: "findRoute (Suc (Suc 0)) town_met 0 player1 \<lparr>px = 2, py = 0\<rparr> 1
      = Some (Inr None)"
    by simp
  from A la have 3: "\<exists>p. findRoute (Suc (Suc (Suc 0))) town_alone 0 player1 \<lparr>px = 2, py = 0\<rparr> 1
              = Some (Inr (Some \<lparr>route_path = p, newDestination = None\<rparr>))
         \<and> position (last p) = \<lparr>px = 2, py = 0\<rparr>"
    by auto
  show ?thesis
    using loop_wall lw(1) 1 lm la(1) 2 loop_alone 3 by blast
qed

theorem findRoute_reads_positions_at_now_witness:
  "allPlayers town_met = allPlayers town_left \<and> gameMap town_met = gameMap town_left
   \<and> (\<forall>i. lookupLocation town_met 0 i = lookupLocation town_left 0 i)
   \<and> lookupLocation town_met 1000 ''l2'' \<noteq> lookupLocation town_left 1000 ''l2''
   \<and> findRoute (Suc (Suc 0)) town_left 0 player1 \<lparr>px = 2, py = 0\<rparr> 1 = Some (Inr None)"
proof -
  have h: "allPlayers town_met = allPlayers town_left" "gameMap town_met = gameMap town_left"
    "\<forall>i. lookupLocation town_met 0 i = lookupLocation town_left 0 i"
    by (simp_all add: town_met_def town_left_def)
  have d: "lookupLocation town_met 1000 ''l2'' \<noteq> lookupLocation town_left 1000 ''l2''"
    by (simp add: town_met_def town_left_def)
  from findRoute_reads_positions_at_now [OF h, of "Suc (Suc 0)" player1 "\<lparr>px = 2, py = 0\<rparr>" 1]
    findRoute_met
  have "findRoute (Suc (Suc 0)) town_left 0 player1 \<lparr>px = 2, py = 0\<rparr> 1 = Some (Inr None)"
    by simp
  with h d show ?thesis by blast
qed

text \<open>
  The claim as stated fails. In \<open>town_met\<close> the candidate \<open>(1, 0)\<close> of the start would be
  reached at time 1000 (as in \<open>town_alone\<close>, where it is the one candidate explored).
  The other player is within the collision threshold of it at the query time 0 and
  not at time 1000, when the position is free; \<^verbatim>\<open>explore\<close> drops the candidate all the
  same, and \<^verbatim>\<open>findRoute\<close> finds no route.
\<close>

theorem blocked_at_arrival_time_counterexample:
  "map_sum id fst (explore town_alone 0 player1 \<lparr>px = 2, py = 0\<rparr> 1 alone_s Map.empty)
     = Inr [alone_c1]
   \<and> c_position alone_c1 = \<lparr>px = 1, py = 0\<rparr> \<and> c_t alone_c1 = 1000
   \<and> blocked town_met 1000 \<lparr>px = 1, py = 0\<rparr> (Some (player_id player1)) = Inr None
   \<and> blocked town_met 0 \<lparr>px = 1, py = 0\<rparr> (Some (player_id player1)) = Inr (Some ''player'')
   \<and> map_sum id fst (explore town_met 0 player1 \<lparr>px = 2, py = 0\<rparr> 1 alone_s Map.empty) = Inr []
   \<and> findRoute (Suc (Suc 0)) town_met 0 player1 \<lparr>px = 2, py = 0\<rparr> 1 = Some (Inr None)"
proof -
  have p: "player_id player1 = ''p1''" by (simp add: player1_def)
  have e: "explore town_met 0 player1 \<lparr>px = 2, py = 0\<rparr> 1 alone_s Map.empty = Inr ([], Map.empty)"
    using explore_met by (simp only: start0_alone)
  show ?thesis
    by (simp add: explore_alone_s e p blocked_met_arrival blocked_met_now findRoute_met)
       (simp add: alone_c1_def)
qed

section \<open>MinHeap\<close>

lemma length_js_set: "length (js_set t d v) = max (length t) (Suc d)"
  by (simp add: js_set_def max_def)

lemma nth_js_set_same: "js_set t d v ! d = v"
  by (simp add: js_set_def)

lemma nth_js_set_other: "i \<noteq> d \<Longrightarrow> i < length t \<Longrightarrow> js_set t d v ! i = t ! i"
  by (simp add: js_set_def nth_append)

lemma slot_js_set_same: "slot (js_set t d (Some x)) d = x"
  by (simp add: slot_def nth_js_set_same)

lemma slot_js_set_other: "i \<noteq> d \<Longrightarrow> i < length t \<Longrightarrow> slot (js_set t d v) i = slot t i"
  by (simp add: slot_def nth_js_set_other)

lemma js_get_in: "i < length t \<Longrightarrow> js_get t i = t ! i"
  by (simp add: js_get_def)

lemma strict_weak_asym: "strict_weak compare \<Longrightarrow> compare a b \<Longrightarrow> \<not> compare b a"
  unfolding strict_weak_def by blast

lemma strict_weak_irrefl: "strict_weak compare \<Longrightarrow> \<not> compare a a"
  unfolding strict_weak_def by blast

lemma strict_weak_ntrans:
  "strict_weak compare \<Longrightarrow> \<not> compare a b \<Longrightarrow> \<not> compare b c \<Longrightarrow> \<not> compare a c"
  unfolding strict_weak_def by blast

lemma strict_weak_trans:
  "strict_weak compare \<Longrightarrow> compare a b \<Longrightarrow> compare b c \<Longrightarrow> compare a c"
  unfolding strict_weak_def by blast

lemma contents_cong:
  "(\<And>i. 1 \<le> i \<Longrightarrow> i < e \<Longrightarrow> slot t i = slot t' i) \<Longrightarrow> contents t e = contents t' e"
  unfolding contents_def by (rule image_mset_cong) simp

lemma contents_swap:
  assumes p: "1 \<le> p" "p < e" and d: "1 \<le> d" "d < e"
    and sw: "slot t' p = slot t d" "slot t' d = slot t p"
    and rest: "\<And>i. 1 \<le> i \<Longrightarrow> i < e \<Longrightarrow> i \<noteq> p \<Longrightarrow> i \<noteq> d \<Longrightarrow> slot t' i = slot t i"
  shows "contents t' e = contents t e"
proof -
  define \<pi> where "\<pi> = (\<lambda>i. if i = p then d else if i = d then p else i)"
  have eq: "slot t' i = slot t (\<pi> i)" if "i \<in> {1..<e}" for i
    using that sw rest by (auto simp: \<pi>_def)
  have im: "\<pi> ` {1..<e} = {1..<e}"
  proof
    show "\<pi> ` {1..<e} \<subseteq> {1..<e}" using p d by (auto simp: \<pi>_def)
    show "{1..<e} \<subseteq> \<pi> ` {1..<e}"
    proof
      fix i assume i: "i \<in> {1..<e}"
      have "\<pi> (\<pi> i) = i" by (simp add: \<pi>_def)
      moreover have "\<pi> i \<in> {1..<e}" using i p d by (auto simp: \<pi>_def)
      ultimately show "i \<in> \<pi> ` {1..<e}" by (metis imageI)
    qed
  qed
  have inv: "\<pi> (\<pi> i) = i" for i by (simp add: \<pi>_def)
  have inj: "inj_on \<pi> {1..<e}"
    by (rule inj_on_inverseI [of _ \<pi>]) (rule inv)
  have "contents t' e = image_mset (slot t \<circ> \<pi>) (mset_set {1..<e})"
    unfolding contents_def by (rule image_mset_cong) (use eq in auto)
  also have "\<dots> = image_mset (slot t) (image_mset \<pi> (mset_set {1..<e}))"
    by (simp add: multiset.map_comp)
  also have "image_mset \<pi> (mset_set {1..<e}) = mset_set (\<pi> ` {1..<e})"
    using inj by (rule image_mset_mset_set)
  finally show ?thesis
    unfolding im contents_def .
qed

lemma contents_Suc:
  "1 \<le> e \<Longrightarrow> contents t (Suc e) = add_mset (slot t e) (contents t e)"
proof -
  assume "1 \<le> e"
  then have "{1..<Suc e} = insert e {1..<e}" by auto
  then show ?thesis by (simp add: contents_def)
qed

lemma size_contents: "size (contents t e) = e - 1"
  by (simp add: contents_def)

text \<open>
  The loop of \<^verbatim>\<open>push\<close>, seen on the tree with the new value put into the hole at
  \<open>d\<close>: every slot up to \<open>n\<close> is filled, every parent-child pair is in order except
  perhaps the one above the hole, and the children of the hole are in order with the
  hole's parent.
\<close>

lemma push_loop_correct:
  assumes sw: "strict_weak compare"
  shows "1 \<le> d \<Longrightarrow> d \<le> n \<Longrightarrow> d \<le> length t \<Longrightarrow> n < length (js_set t d (Some x)) \<Longrightarrow>
    (\<forall>i. 1 \<le> i \<and> i \<le> n \<longrightarrow> js_set t d (Some x) ! i \<noteq> None) \<Longrightarrow>
    (\<forall>i. 2 \<le> i \<and> i \<le> n \<and> i \<noteq> d \<longrightarrow>
         \<not> compare (slot (js_set t d (Some x)) (i div 2)) (slot (js_set t d (Some x)) i)) \<Longrightarrow>
    (\<forall>c. 2 \<le> d \<and> c \<le> n \<and> c div 2 = d \<longrightarrow>
         \<not> compare (slot (js_set t d (Some x)) (d div 2)) (slot (js_set t d (Some x)) c)) \<Longrightarrow>
    \<exists>t' d'. push_loop compare x t d = Some (t', d')
       \<and> heap_ok compare (js_set t' d' (Some x)) (Suc n)
       \<and> contents (js_set t' d' (Some x)) (Suc n) = contents (js_set t d (Some x)) (Suc n)"
proof (induction d arbitrary: t rule: less_induct)
  case (less d)
  define T where "T = js_set t d (Some x)"
  note inv = less.prems [folded T_def]
  have lenT: "n < length T" using inv(4) .
  have def: "\<And>i. 1 \<le> i \<Longrightarrow> i \<le> n \<Longrightarrow> T ! i \<noteq> None" using inv(5) by blast
  have edge: "\<And>i. 2 \<le> i \<Longrightarrow> i \<le> n \<Longrightarrow> i \<noteq> d \<Longrightarrow> \<not> compare (slot T (i div 2)) (slot T i)"
    using inv(6) by blast
  have gp: "\<And>c. 2 \<le> d \<Longrightarrow> c \<le> n \<Longrightarrow> c div 2 = d \<Longrightarrow> \<not> compare (slot T (d div 2)) (slot T c)"
    using inv(7) by blast
  have Td: "slot T d = x" by (simp add: T_def slot_js_set_same)
  show ?case
  proof (cases "d div 2 > 0")
    case False
    then have d1: "d = 1" using less.prems(1) by (cases d) auto
    have res: "push_loop compare x t d = Some (t, d)"
      using False by (simp add: push_loop.simps [of compare x t d])
    have "heap_ok compare T (Suc n)"
      unfolding heap_ok_def
    proof (intro conjI allI impI)
      show "1 \<le> Suc n" by simp
      show "Suc n \<le> length T" using lenT by simp
    next
      fix i assume "1 \<le> i \<and> i < Suc n"
      then show "T ! i \<noteq> None" using def [of i] by simp
    next
      fix i assume "2 \<le> i \<and> i < Suc n"
      then show "\<not> compare (slot T (i div 2)) (slot T i)"
        using edge [of i] d1 by simp
    qed
    with res show ?thesis unfolding T_def by blast
  next
    case True
    define p where "p = d div 2"
    have p: "1 \<le> p" "p < d" "p \<le> n" "p < length t" "2 \<le> d"
      using True less.prems(1,2,3) by (auto simp: p_def)
    have Tp: "T ! p = t ! p" unfolding T_def using p by (simp add: nth_js_set_other)
    obtain ex where ex: "t ! p = Some ex"
      using def [of p] p Tp by (cases "t ! p") auto
    have sTp: "slot T p = ex" using Tp ex by (simp add: slot_def)
    have get: "js_get t p = Some ex" using p ex by (simp add: js_get_in)
    show ?thesis
    proof (cases "compare x ex")
      case cmp: True
      have res: "push_loop compare x t d = Some (t, d)"
        using True cmp get
        by (simp add: push_loop.simps [of compare x t d] p_def [symmetric] compare_slots_def)
      have "heap_ok compare T (Suc n)"
        unfolding heap_ok_def
      proof (intro conjI allI impI)
        show "1 \<le> Suc n" by simp
        show "Suc n \<le> length T" using lenT by simp
      next
        fix i assume "1 \<le> i \<and> i < Suc n"
        then show "T ! i \<noteq> None" using def [of i] by simp
      next
        fix i assume i: "2 \<le> i \<and> i < Suc n"
        show "\<not> compare (slot T (i div 2)) (slot T i)"
        proof (cases "i = d")
          case True
          then show ?thesis
            using strict_weak_asym [OF sw cmp] sTp Td by (simp add: p_def)
        next
          case False
          then show ?thesis using edge [of i] i by simp
        qed
      qed
      with res show ?thesis unfolding T_def by blast
    next
      case ncmp: False
      define t1 where "t1 = js_set t d (Some ex)"
      define T1 where "T1 = js_set t1 p (Some x)"
      have res: "push_loop compare x t d = push_loop compare x t1 p"
        using True ncmp get
        by (simp add: push_loop.simps [of compare x t d] p_def [symmetric] compare_slots_def
            t1_def)
      have len1: "length t1 = length T" by (simp add: t1_def T_def length_js_set)
      have lenT1: "length T1 = length T"
        using p len1 lenT by (simp add: T1_def length_js_set max_def)
      have pl1: "p < length t1" using p by (simp add: t1_def length_js_set)
      have dl1: "d < length t1" by (simp add: t1_def length_js_set)
      have T1p: "T1 ! p = Some x" by (simp add: T1_def nth_js_set_same)
      have T1d: "T1 ! d = Some ex"
        using p dl1 by (simp add: T1_def nth_js_set_other t1_def nth_js_set_same)
      have T1o: "T1 ! i = T ! i" if "i \<noteq> p" "i \<noteq> d" "i < length T" for i
      proof -
        have il: "i < length t"
          using that less.prems(3) by (simp add: T_def length_js_set max_def split: if_splits)
        have "T1 ! i = t1 ! i" using that len1 by (simp add: T1_def nth_js_set_other)
        also have "\<dots> = t ! i"
          using that il by (simp add: t1_def nth_js_set_other)
        also have "\<dots> = T ! i"
          using that il by (simp add: T_def nth_js_set_other)
        finally show ?thesis .
      qed
      have s1p: "slot T1 p = x" and s1d: "slot T1 d = ex"
        using T1p T1d by (simp_all add: slot_def)
      have s1o: "slot T1 i = slot T i" if "i \<noteq> p" "i \<noteq> d" "i \<le> n" for i
        using T1o [of i] that lenT by (simp add: slot_def)
      have cont: "contents T1 (Suc n) = contents T (Suc n)"
      proof (rule contents_swap [of p _ d])
        show "1 \<le> p" "p < Suc n" "1 \<le> d" "d < Suc n" using p less.prems by auto
        show "slot T1 p = slot T d" using s1p Td by simp
        show "slot T1 d = slot T p" using s1d sTp by simp
        show "\<And>i. 1 \<le> i \<Longrightarrow> i < Suc n \<Longrightarrow> i \<noteq> p \<Longrightarrow> i \<noteq> d \<Longrightarrow> slot T1 i = slot T i"
          using s1o by simp
      qed
      have nx: "\<not> compare x ex" using ncmp .
      have IH: "\<exists>t' d'. push_loop compare x t1 p = Some (t', d')
          \<and> heap_ok compare (js_set t' d' (Some x)) (Suc n)
          \<and> contents (js_set t' d' (Some x)) (Suc n) = contents (js_set t1 p (Some x)) (Suc n)"
      proof (rule less.IH [OF p(2) p(1) p(3)])
        show "p \<le> length t1" using pl1 by simp
        show "n < length (js_set t1 p (Some x))" using lenT1 lenT by (simp add: T1_def)
        show "\<forall>i. 1 \<le> i \<and> i \<le> n \<longrightarrow> js_set t1 p (Some x) ! i \<noteq> None"
        proof (intro allI impI)
          fix i assume i: "1 \<le> i \<and> i \<le> n"
          show "js_set t1 p (Some x) ! i \<noteq> None"
            using T1p T1d T1o [of i] def [of i] i lenT
            unfolding T1_def [symmetric] by (cases "i = p"; cases "i = d") auto
        qed
        show "\<forall>i. 2 \<le> i \<and> i \<le> n \<and> i \<noteq> p \<longrightarrow>
            \<not> compare (slot (js_set t1 p (Some x)) (i div 2)) (slot (js_set t1 p (Some x)) i)"
          unfolding T1_def [symmetric]
        proof (intro allI impI)
          fix i assume i: "2 \<le> i \<and> i \<le> n \<and> i \<noteq> p"
          show "\<not> compare (slot T1 (i div 2)) (slot T1 i)"
          proof (cases "i = d")
            case True
            then show ?thesis using s1p s1d nx by (simp add: p_def)
          next
            case id: False
            have si: "slot T1 i = slot T i" using s1o [of i] i id by simp
            have q: "i div 2 \<le> n" "i div 2 \<noteq> i" using i by auto
            show ?thesis
            proof (cases "i div 2 = d")
              case True
              then show ?thesis using gp [of i] p i si s1d sTp by (simp add: p_def)
            next
              case qd: False
              show ?thesis
              proof (cases "i div 2 = p")
                case True
                have "\<not> compare ex (slot T i)" using edge [of i] i id True sTp by simp
                with nx have "\<not> compare x (slot T i)" by (rule strict_weak_ntrans [OF sw])
                then show ?thesis using True s1p si by simp
              next
                case False
                then show ?thesis using edge [of i] i id qd si s1o [of "i div 2"] q by simp
              qed
            qed
          qed
        qed
        show "\<forall>c. 2 \<le> p \<and> c \<le> n \<and> c div 2 = p \<longrightarrow>
            \<not> compare (slot (js_set t1 p (Some x)) (p div 2)) (slot (js_set t1 p (Some x)) c)"
          unfolding T1_def [symmetric]
        proof (intro allI impI)
          fix c assume c: "2 \<le> p \<and> c \<le> n \<and> c div 2 = p"
          have pp: "p div 2 \<noteq> p" "p div 2 \<noteq> d" "p div 2 \<le> n" using p c by auto
          have spp: "slot T1 (p div 2) = slot T (p div 2)" using s1o [of "p div 2"] pp by simp
          have e1: "\<not> compare (slot T (p div 2)) ex"
            using edge [of p] c p sTp by simp
          show "\<not> compare (slot T1 (p div 2)) (slot T1 c)"
          proof (cases "c = d")
            case True
            then show ?thesis using spp s1d e1 by simp
          next
            case False
            have cp: "c \<noteq> p" using c by auto
            have "2 \<le> c" using c by auto
            then have "\<not> compare ex (slot T c)" using edge [of c] c False sTp by simp
            with e1 have "\<not> compare (slot T (p div 2)) (slot T c)"
              by (rule strict_weak_ntrans [OF sw])
            then show ?thesis using spp s1o [of c] False cp c by simp
          qed
        qed
      qed
      then show ?thesis
        unfolding res T1_def [symmetric] T_def [symmetric] cont .
    qed
  qed
qed

lemma push_correct:
  assumes sw: "strict_weak compare" and ok: "heap_ok compare (tree h) (endIndex h)"
  shows "\<exists>h'. push compare x h = Some h'
     \<and> heap_ok compare (tree h') (endIndex h')
     \<and> endIndex h' = Suc (endIndex h)
     \<and> contents (tree h') (endIndex h') = add_mset x (contents (tree h) (endIndex h))"
proof -
  define n where "n = endIndex h"
  define t where "t = tree h"
  define T where "T = js_set t n (Some x)"
  from ok have n1: "1 \<le> n" and nl: "n \<le> length t"
    and def: "\<And>i. 1 \<le> i \<Longrightarrow> i < n \<Longrightarrow> t ! i \<noteq> None"
    and edge: "\<And>i. 2 \<le> i \<Longrightarrow> i < n \<Longrightarrow> \<not> compare (slot t (i div 2)) (slot t i)"
    unfolding heap_ok_def n_def t_def by blast+
  have To: "T ! i = t ! i" if "i < n" for i
    using that nl by (simp add: T_def nth_js_set_other)
  have so: "slot T i = slot t i" if "i < n" for i
    using To [OF that] by (simp add: slot_def)
  have "\<exists>t' d'. push_loop compare x t n = Some (t', d')
       \<and> heap_ok compare (js_set t' d' (Some x)) (Suc n)
       \<and> contents (js_set t' d' (Some x)) (Suc n) = contents (js_set t n (Some x)) (Suc n)"
  proof (rule push_loop_correct [OF sw n1 _ nl])
    show "n \<le> n" by simp
    show "n < length (js_set t n (Some x))" by (simp add: length_js_set)
    show "\<forall>i. 1 \<le> i \<and> i \<le> n \<longrightarrow> js_set t n (Some x) ! i \<noteq> None"
    proof (intro allI impI)
      fix i assume i: "1 \<le> i \<and> i \<le> n"
      show "js_set t n (Some x) ! i \<noteq> None"
      proof (cases "i = n")
        case True
        then show ?thesis by (simp add: nth_js_set_same)
      next
        case False
        then show ?thesis using To [of i] def [of i] i by (simp add: T_def)
      qed
    qed
    show "\<forall>i. 2 \<le> i \<and> i \<le> n \<and> i \<noteq> n \<longrightarrow>
        \<not> compare (slot (js_set t n (Some x)) (i div 2)) (slot (js_set t n (Some x)) i)"
      unfolding T_def [symmetric]
    proof (intro allI impI)
      fix i assume i: "2 \<le> i \<and> i \<le> n \<and> i \<noteq> n"
      then have "i < n" "i div 2 < n" by auto
      then show "\<not> compare (slot T (i div 2)) (slot T i)"
        using so [of i] so [of "i div 2"] edge [of i] i by simp
    qed
    show "\<forall>c. 2 \<le> n \<and> c \<le> n \<and> c div 2 = n \<longrightarrow>
        \<not> compare (slot (js_set t n (Some x)) (n div 2)) (slot (js_set t n (Some x)) c)"
      by auto
  qed
  then obtain t' d' where r: "push_loop compare x t n = Some (t', d')"
    "heap_ok compare (js_set t' d' (Some x)) (Suc n)"
    "contents (js_set t' d' (Some x)) (Suc n) = contents T (Suc n)"
    unfolding T_def by blast
  have "contents T (Suc n) = add_mset (slot T n) (contents T n)"
    using n1 by (rule contents_Suc)
  also have "slot T n = x" by (simp add: T_def slot_js_set_same)
  also have "contents T n = contents t n"
    by (rule contents_cong) (use so in simp)
  finally have c: "contents T (Suc n) = add_mset x (contents t n)" .
  have "push compare x h = Some \<lparr>tree = js_set t' d' (Some x), endIndex = Suc n\<rparr>"
    using r(1) by (simp add: push_def t_def n_def)
  then show ?thesis
    using r(2,3) c by (simp add: t_def n_def)
qed

text \<open>
  The loop of \<^verbatim>\<open>pop\<close>, seen on the tree with the last value put into the hole at \<open>d\<close>:
  the slots up to \<open>e\<close> are filled (slot \<open>e\<close> still holds the last value), every
  parent-child pair below \<open>e\<close> is in order except perhaps those under the hole, and the
  children of the hole are in order with the hole's parent.
\<close>

lemma pop_loop_correct:
  assumes sw: "strict_weak compare"
  shows "1 \<le> d \<Longrightarrow> d \<le> e \<Longrightarrow> e < length t \<Longrightarrow> t ! e = Some l \<Longrightarrow>
    (\<forall>i. 1 \<le> i \<and> i \<le> e \<longrightarrow> t ! i \<noteq> None) \<Longrightarrow>
    (\<forall>i. 2 \<le> i \<and> i < e \<and> i div 2 \<noteq> d \<longrightarrow>
         \<not> compare (slot (js_set t d (Some l)) (i div 2)) (slot (js_set t d (Some l)) i)) \<Longrightarrow>
    (\<forall>c. 2 \<le> d \<and> c < e \<and> c div 2 = d \<longrightarrow>
         \<not> compare (slot (js_set t d (Some l)) (d div 2)) (slot (js_set t d (Some l)) c)) \<Longrightarrow>
    \<exists>t' d'. pop_loop compare (Some l) e t d = Some (t', d')
       \<and> heap_ok compare (js_set t' d' (Some l)) e
       \<and> contents (js_set t' d' (Some l)) e = contents (js_set t d (Some l)) e"
proof (induction "e - d" arbitrary: t d rule: less_induct)
  case less
  define T where "T = js_set t d (Some l)"
  note inv = less.prems [folded T_def]
  have d1: "1 \<le> d" and de: "d \<le> e" and el: "e < length t" and te: "t ! e = Some l"
    using less.prems(1-4) by auto
  have def: "\<And>i. 1 \<le> i \<Longrightarrow> i \<le> e \<Longrightarrow> t ! i \<noteq> None" using inv(5) by blast
  have edge: "\<And>i. 2 \<le> i \<Longrightarrow> i < e \<Longrightarrow> i div 2 \<noteq> d
      \<Longrightarrow> \<not> compare (slot T (i div 2)) (slot T i)"
    using inv(6) by blast
  have gp: "\<And>c. 2 \<le> d \<Longrightarrow> c < e \<Longrightarrow> c div 2 = d \<Longrightarrow> \<not> compare (slot T (d div 2)) (slot T c)"
    using inv(7) by blast
  have lenT: "length T = length t" using de el by (simp add: T_def length_js_set max_def)
  have Td: "slot T d = l" by (simp add: T_def slot_js_set_same)
  have To: "slot T i = slot t i" if "i \<noteq> d" "i \<le> e" for i
    using that el by (simp add: T_def slot_js_set_other)
  have TdS: "T ! d = Some l" by (simp add: T_def nth_js_set_same)
  have Tn: "T ! i = t ! i" if "i \<noteq> d" "i \<le> e" for i
    using that el by (simp add: T_def nth_js_set_other)
  have Tdef: "T ! i \<noteq> None" if "1 \<le> i" "i \<le> e" for i
    using that def [of i] TdS Tn [of i] by (cases "i = d") auto
  have okT: "heap_ok compare T e"
    if kids: "\<And>i. 2 \<le> i \<Longrightarrow> i < e \<Longrightarrow> i div 2 = d \<Longrightarrow> \<not> compare l (slot T i)"
  unfolding heap_ok_def
  proof (intro conjI allI impI)
    show "1 \<le> e" using d1 de by simp
    show "e \<le> length T" using el lenT by simp
  next
    fix i assume "1 \<le> i \<and> i < e"
    then show "T ! i \<noteq> None" using Tdef [of i] by simp
  next
    fix i assume i: "2 \<le> i \<and> i < e"
    show "\<not> compare (slot T (i div 2)) (slot T i)"
    proof (cases "i div 2 = d")
      case True
      then show ?thesis using kids [of i] i Td by simp
    next
      case False
      then show ?thesis using edge [of i] i by simp
    qed
  qed
  show ?case
  proof (cases "d * 2 < e")
    case False
    have res: "pop_loop compare (Some l) e t d = Some (t, d)"
      using False d1 by (simp add: pop_loop.simps [of compare "Some l" e t d])
    have "heap_ok compare T e"
    proof (rule okT)
      fix i assume "2 \<le> i" "i < e" "i div 2 = d"
      then have "d * 2 \<le> i" by auto
      with \<open>i < e\<close> False show "\<not> compare l (slot T i)" by simp
    qed
    with res show ?thesis unfolding T_def by blast
  next
    case True
    define L where "L = d * 2"
    define R where "R = d * 2 + 1"
    have LR: "L < e" "R \<le> e" "d < L" "L \<noteq> d" "R \<noteq> d" "1 \<le> L" "1 \<le> R" "L div 2 = d" "R div 2 = d"
      using True d1 by (auto simp: L_def R_def)
    obtain a where a: "t ! L = Some a" using def [of L] LR by (cases "t ! L") auto
    obtain b where b: "t ! R = Some b" using def [of R] LR by (cases "t ! R") auto
    have sa: "slot t L = a" and sb: "slot t R = b" using a b by (simp_all add: slot_def)
    have ga: "js_get t L = Some a" and gb: "js_get t R = Some b"
      using a b LR el by (simp_all add: js_get_in)
    have kids_only: "i = L \<or> i = R" if "i div 2 = d" for i
      using that by (auto simp: L_def R_def)
    define c where "c = (if compare a b then R else L)"
    define ec where "ec = (if compare a b then b else a)"
    have c: "d < c" "c \<le> e" "c \<noteq> d" "1 \<le> c" "2 \<le> c" "c div 2 = d" "c = L \<or> c = R"
      using LR d1 by (auto simp: c_def)
    have tc: "t ! c = Some ec" using a b by (simp add: c_def ec_def)
    have gc: "js_get t c = Some ec" using tc c el by (simp add: js_get_in)
    have unfold: "pop_loop compare (Some l) e t d =
        (if compare ec l then Some (t, d)
         else pop_loop compare (Some l) e (js_set t d (Some ec)) c)"
    proof -
      have SL: "Suc L = R" "L + 1 = R" by (simp_all add: L_def R_def)
      show ?thesis
      proof (cases "compare a b")
        case ab: True
        then have cR: "c = R" "ec = b" by (simp_all add: c_def ec_def)
        show ?thesis
          unfolding cR using True d1 LR(2) ga gb ab
          by (cases "compare b l")
             (simp_all add: pop_loop.simps [of compare "Some l" e t d] compare_slots_def Let_def
                L_def [symmetric] SL)
      next
        case ab: False
        then have cL: "c = L" "ec = a" by (simp_all add: c_def ec_def)
        show ?thesis
          unfolding cL using True d1 LR(2) ga gb ab
          by (cases "compare a l")
             (simp_all add: pop_loop.simps [of compare "Some l" e t d] compare_slots_def Let_def
                L_def [symmetric] SL)
      qed
    qed
    show ?thesis
    proof (cases "compare ec l")
      case brk: True
      have res: "pop_loop compare (Some l) e t d = Some (t, d)"
        using unfold brk by simp
      have nl: "\<not> compare l ec" using strict_weak_asym [OF sw brk] .
      have "heap_ok compare T e"
      proof (rule okT)
        fix i assume i: "2 \<le> i" "i < e" "i div 2 = d"
        from i(3) have iLR: "i = L \<or> i = R" by (rule kids_only)
        have si: "slot T i = slot t i" using To [of i] i iLR LR by auto
        show "\<not> compare l (slot T i)"
        proof (cases "compare a b")
          case True
          then have ecb: "ec = b" by (simp add: ec_def)
          have "compare a l" using strict_weak_trans [OF sw True] brk ecb by simp
          then have "\<not> compare l a" by (rule strict_weak_asym [OF sw])
          then show ?thesis using iLR si sa sb nl ecb by auto
        next
          case False
          then have eca: "ec = a" by (simp add: ec_def)
          have "\<not> compare l b" using strict_weak_ntrans [OF sw _ False] nl eca by simp
          then show ?thesis using iLR si sa sb nl eca by auto
        qed
      qed
      with res show ?thesis unfolding T_def by blast
    next
      case cont: False
      define t1 where "t1 = js_set t d (Some ec)"
      define T1 where "T1 = js_set t1 c (Some l)"
      have res: "pop_loop compare (Some l) e t d = pop_loop compare (Some l) e t1 c"
        using unfold cont by (simp add: t1_def)
      have len1: "length t1 = length t" using de el by (simp add: t1_def length_js_set max_def)
      have t1d: "t1 ! d = Some ec" by (simp add: t1_def nth_js_set_same)
      have t1o: "t1 ! i = t ! i" if "i \<noteq> d" "i \<le> e" for i
        using that el by (simp add: t1_def nth_js_set_other)
      have t1e: "t1 ! e = Some l" using t1o [of e] te True d1 by simp
      have s1c: "slot T1 c = l" by (simp add: T1_def slot_js_set_same)
      have s1d: "slot T1 d = ec"
        using c el len1 t1d by (simp add: T1_def slot_def nth_js_set_other)
      have s1o: "slot T1 i = slot t i" if "i \<noteq> d" "i \<noteq> c" "i \<le> e" for i
        using that el len1 t1o [of i] by (simp add: T1_def slot_def nth_js_set_other)
      have ce_l: "ec = l" if "c = e"
        using that tc te by simp
      have sib: "\<not> compare ec (slot t i)" if "i = L \<or> i = R" "i \<noteq> c" for i
      proof (cases "compare a b")
        case True
        then have "c = R" "ec = b" by (simp_all add: c_def ec_def)
        with that have "i = L" by auto
        then show ?thesis using strict_weak_asym [OF sw True] sa \<open>ec = b\<close> by simp
      next
        case False
        then have "c = L" "ec = a" by (simp_all add: c_def ec_def)
        with that have "i = R" by auto
        then show ?thesis using False sb \<open>ec = a\<close> by simp
      qed
      have cont_eq: "contents T1 e = contents T e"
      proof (cases "c < e")
        case True
        show ?thesis
        proof (rule contents_swap [of c _ d])
          show "1 \<le> c" "c < e" "1 \<le> d" "d < e" using c True d1 by auto
          show "slot T1 c = slot T d" using s1c Td by simp
          show "slot T1 d = slot T c" using s1d To [of c] c tc by (simp add: slot_def)
          show "\<And>i. 1 \<le> i \<Longrightarrow> i < e \<Longrightarrow> i \<noteq> c \<Longrightarrow> i \<noteq> d \<Longrightarrow> slot T1 i = slot T i"
            using s1o To by simp
        qed
      next
        case False
        then have ce: "c = e" using c by simp
        show ?thesis
        proof (rule contents_cong)
          fix i assume i: "1 \<le> i" "i < e"
          show "slot T1 i = slot T i"
          proof (cases "i = d")
            case True
            then show ?thesis using s1d Td ce_l [OF ce] by simp
          next
            case False
            then show ?thesis using s1o [of i] To [of i] i ce by simp
          qed
        qed
      qed
      have IH: "\<exists>t' d'. pop_loop compare (Some l) e t1 c = Some (t', d')
          \<and> heap_ok compare (js_set t' d' (Some l)) e
          \<and> contents (js_set t' d' (Some l)) e = contents (js_set t1 c (Some l)) e"
      proof (rule less.hyps)
        show "e - c < e - d" using c de True by simp
        show "1 \<le> c" using c by simp
        show "c \<le> e" using c by simp
        show "e < length t1" using el len1 by simp
        show "t1 ! e = Some l" using t1e .
        show "\<forall>i. 1 \<le> i \<and> i \<le> e \<longrightarrow> t1 ! i \<noteq> None"
        proof (intro allI impI)
          fix i assume "1 \<le> i \<and> i \<le> e"
          then show "t1 ! i \<noteq> None"
            using t1d t1o [of i] def [of i] by (cases "i = d") auto
        qed
        show "\<forall>i. 2 \<le> i \<and> i < e \<and> i div 2 \<noteq> c \<longrightarrow>
            \<not> compare (slot (js_set t1 c (Some l)) (i div 2)) (slot (js_set t1 c (Some l)) i)"
          unfolding T1_def [symmetric]
        proof (intro allI impI)
          fix i assume i: "2 \<le> i \<and> i < e \<and> i div 2 \<noteq> c"
          have q: "i div 2 \<le> e" "i div 2 \<noteq> i" "1 \<le> i div 2" using i by auto
          show "\<not> compare (slot T1 (i div 2)) (slot T1 i)"
          proof (cases "i div 2 = d")
            case pd: True
            then have iLR: "i = L \<or> i = R" by (rule kids_only)
            have id: "i \<noteq> d" using pd q by auto
            show ?thesis
            proof (cases "i = c")
              case True
              then show ?thesis using pd s1d s1c cont by simp
            next
              case False
              then show ?thesis
                using sib [OF iLR False] s1o [of i] id i pd s1d by simp
            qed
          next
            case npd: False
            have sq: "slot T1 (i div 2) = slot T (i div 2)"
              using s1o [of "i div 2"] To [of "i div 2"] npd i q by simp
            show ?thesis
            proof (cases "i = d")
              case True
              then have d2: "2 \<le> d" using i by simp
              show ?thesis
              proof (cases "c < e")
                case True
                have "\<not> compare (slot T (d div 2)) (slot T c)"
                  using gp [OF d2 True] c by simp
                then show ?thesis
                  using \<open>i = d\<close> sq s1d To [of c] c tc by (simp add: slot_def)
              next
                case False
                then have "c = e" using c by simp
                then have "ec = l" by (rule ce_l)
                moreover have "\<not> compare (slot T (d div 2)) (slot T d)"
                  using edge [of d] d2 i True npd by simp
                ultimately show ?thesis using \<open>i = d\<close> sq s1d Td by simp
              qed
            next
              case False
              have ic: "i \<noteq> c"
              proof
                assume "i = c"
                then have "i div 2 = d" using c by simp
                with npd show False by simp
              qed
              have "slot T1 i = slot T i" using s1o [of i] To [of i] False ic i by simp
              then show ?thesis using edge [of i] i npd sq by simp
            qed
          qed
        qed
        show "\<forall>cc. 2 \<le> c \<and> cc < e \<and> cc div 2 = c \<longrightarrow>
            \<not> compare (slot (js_set t1 c (Some l)) (c div 2)) (slot (js_set t1 c (Some l)) cc)"
          unfolding T1_def [symmetric]
        proof (intro allI impI)
          fix cc assume cc: "2 \<le> c \<and> cc < e \<and> cc div 2 = c"
          then have cc2: "2 \<le> cc" "cc \<noteq> c" "cc \<noteq> d" "c < e" using c by auto
          have "\<not> compare (slot T c) (slot T cc)"
            using edge [of cc] cc cc2 c by simp
          moreover have "slot T c = ec" using To [of c] c tc by (simp add: slot_def)
          moreover have "slot T1 cc = slot T cc" using s1o [of cc] To [of cc] cc cc2 by simp
          ultimately show "\<not> compare (slot T1 (c div 2)) (slot T1 cc)"
            using c s1d by simp
        qed
      qed
      then show ?thesis
        unfolding res T1_def [symmetric] T_def [symmetric] cont_eq .
    qed
  qed
qed

lemma root_minimal:
  assumes sw: "strict_weak compare" and ok: "heap_ok compare t e"
  shows "1 \<le> i \<Longrightarrow> i < e \<Longrightarrow> \<not> compare (slot t 1) (slot t i)"
proof (induction i rule: less_induct)
  case (less i)
  show ?case
  proof (cases "i = 1")
    case True
    then show ?thesis using strict_weak_irrefl [OF sw] by simp
  next
    case False
    with less.prems have i2: "2 \<le> i" by simp
    then have "i div 2 < i" "1 \<le> i div 2" "i div 2 < e" using less.prems by auto
    then have "\<not> compare (slot t 1) (slot t (i div 2))" using less.IH by blast
    moreover have "\<not> compare (slot t (i div 2)) (slot t i)"
      using ok i2 less.prems unfolding heap_ok_def by blast
    ultimately show ?thesis by (rule strict_weak_ntrans [OF sw])
  qed
qed

lemma contents_member:
  "y \<in># contents t e \<Longrightarrow> \<exists>i. 1 \<le> i \<and> i < e \<and> y = slot t i"
  by (auto simp: contents_def)

lemma contents_first:
  assumes "2 \<le> e"
  shows "contents t e = add_mset (slot t 1) (image_mset (slot t) (mset_set {2..<e}))"
proof -
  have "{1..<e} = insert 1 {2..<e}" using assms by auto
  then show ?thesis by (simp add: contents_def)
qed

lemma contents_one: "contents t (Suc 0) = {#}"
  by (simp add: contents_def)

lemma pop_correct:
  assumes sw: "strict_weak compare" and ok: "heap_ok compare (tree h) (endIndex h)"
    and ne: "2 \<le> endIndex h"
  shows "\<exists>h'. pop compare h = Some (Some (slot (tree h) 1), h')
     \<and> heap_ok compare (tree h') (endIndex h')
     \<and> Suc (endIndex h') = endIndex h
     \<and> contents (tree h) (endIndex h) = add_mset (slot (tree h) 1) (contents (tree h') (endIndex h'))"
proof -
  define e where "e = endIndex h - 1"
  define t where "t = tree h"
  have eS: "endIndex h = Suc e" and e1: "1 \<le> e" using ne by (simp_all add: e_def)
  from ok have el: "e < length t"
    and def: "\<And>i. 1 \<le> i \<Longrightarrow> i \<le> e \<Longrightarrow> t ! i \<noteq> None"
    and edge: "\<And>i. 2 \<le> i \<Longrightarrow> i \<le> e \<Longrightarrow> \<not> compare (slot t (i div 2)) (slot t i)"
    unfolding heap_ok_def eS t_def [symmetric] by (simp_all add: less_Suc_eq_le)
  obtain l where l: "t ! e = Some l" using def [of e] e1 by (cases "t ! e") auto
  obtain r where r: "t ! 1 = Some r" using def [of 1] e1 by (cases "t ! 1") auto
  have sr: "slot t 1 = r" and sl: "slot t e = l" using r l by (simp_all add: slot_def)
  define T where "T = js_set t 1 (Some l)"
  have To: "slot T i = slot t i" if "i \<noteq> 1" "i \<le> e" for i
    using that el by (simp add: T_def slot_js_set_other)
  have T1: "slot T 1 = l" by (simp add: T_def slot_js_set_same)
  have "\<exists>t' d'. pop_loop compare (Some l) e t 1 = Some (t', d')
       \<and> heap_ok compare (js_set t' d' (Some l)) e
       \<and> contents (js_set t' d' (Some l)) e = contents (js_set t 1 (Some l)) e"
  proof (rule pop_loop_correct [OF sw _ e1 el l])
    show "1 \<le> (1::nat)" by simp
    show "\<forall>i. 1 \<le> i \<and> i \<le> e \<longrightarrow> t ! i \<noteq> None" using def by blast
    show "\<forall>i. 2 \<le> i \<and> i < e \<and> i div 2 \<noteq> 1 \<longrightarrow>
        \<not> compare (slot (js_set t 1 (Some l)) (i div 2)) (slot (js_set t 1 (Some l)) i)"
      unfolding T_def [symmetric]
    proof (intro allI impI)
      fix i assume i: "2 \<le> i \<and> i < e \<and> i div 2 \<noteq> 1"
      then have "i \<noteq> 1" "i \<le> e" "i div 2 \<le> e" by auto
      then show "\<not> compare (slot T (i div 2)) (slot T i)"
        using To [of i] To [of "i div 2"] edge [of i] i by simp
    qed
    show "\<forall>c. 2 \<le> (1::nat) \<and> c < e \<and> c div 2 = 1 \<longrightarrow>
        \<not> compare (slot (js_set t 1 (Some l)) (1 div 2)) (slot (js_set t 1 (Some l)) c)"
      by simp
  qed
  then obtain t' d' where res: "pop_loop compare (Some l) e t 1 = Some (t', d')"
    "heap_ok compare (js_set t' d' (Some l)) e"
    "contents (js_set t' d' (Some l)) e = contents T e"
    unfolding T_def by blast
  have cont: "contents t (Suc e) = add_mset r (contents T e)"
  proof (cases "e = 1")
    case True
    then show ?thesis
      using contents_Suc [of 1 t] sr by (simp add: contents_one)
  next
    case False
    then have e2: "2 \<le> e" using e1 by simp
    have "image_mset (slot T) (mset_set {2..<e}) = image_mset (slot t) (mset_set {2..<e})"
      by (rule image_mset_cong) (use To in auto)
    then have "contents T e = add_mset l (image_mset (slot t) (mset_set {2..<e}))"
      using contents_first [OF e2, of T] T1 by simp
    moreover have "contents t (Suc e) = add_mset l (contents t e)"
      using contents_Suc [OF e1, of t] sl by simp
    ultimately show ?thesis
      using contents_first [OF e2, of t] sr by simp
  qed
  have get1: "js_get t 1 = Some r" and gete: "js_get t e = Some l"
    using r l el e1 by (simp_all add: js_get_in)
  have en1: "endIndex h \<noteq> 1" using ne by simp
  have ee: "endIndex h - Suc 0 = e" by (simp add: e_def)
  have "pop compare h = Some (Some r, \<lparr>tree = js_set t' d' (Some l), endIndex = e\<rparr>)"
    unfolding pop_def using en1 res(1) get1 gete
    by (simp add: Let_def t_def [symmetric] ee)
  then show ?thesis
    using res(2,3) cont eS sr by (simp add: t_def [symmetric])
qed

lemma heap_ok_new: "heap_ok compare (tree new_MinHeap) (endIndex new_MinHeap)"
  by (simp add: heap_ok_def new_MinHeap_def)

lemma push_all_correct:
  assumes sw: "strict_weak compare"
  shows "heap_ok compare (tree h) (endIndex h) \<Longrightarrow>
    \<exists>h'. push_all compare xs h = Some h'
       \<and> heap_ok compare (tree h') (endIndex h')
       \<and> endIndex h' = endIndex h + length xs
       \<and> contents (tree h') (endIndex h') = mset xs + contents (tree h) (endIndex h)"
proof (induction xs arbitrary: h)
  case Nil
  then show ?case by simp
next
  case (Cons x xs)
  from push_correct [OF sw Cons.prems, of x]
  obtain h1 where h1: "push compare x h = Some h1" "heap_ok compare (tree h1) (endIndex h1)"
    "endIndex h1 = Suc (endIndex h)"
    "contents (tree h1) (endIndex h1) = add_mset x (contents (tree h) (endIndex h))"
    by blast
  from Cons.IH [OF h1(2)]
  obtain h' where h': "push_all compare xs h1 = Some h'"
    "heap_ok compare (tree h') (endIndex h')"
    "endIndex h' = endIndex h1 + length xs"
    "contents (tree h') (endIndex h') = mset xs + contents (tree h1) (endIndex h1)"
    by blast
  show ?case
    using h1 h' by simp
qed

lemma pop_n_correct:
  assumes sw: "strict_weak compare"
  shows "heap_ok compare (tree h) (endIndex h) \<Longrightarrow> endIndex h = Suc n \<Longrightarrow>
    \<exists>ys h'. pop_n compare n h = Some (map Some ys, h')
       \<and> mset ys = contents (tree h) (endIndex h)
       \<and> sorted_wrt (\<lambda>a b. \<not> compare a b) ys
       \<and> endIndex h' = 1 \<and> heap_ok compare (tree h') (endIndex h')"
proof (induction n arbitrary: h)
  case 0
  have "pop_n compare 0 h = Some (map Some [], h)" by simp
  moreover have "mset [] = contents (tree h) (endIndex h)"
    using "0.prems"(2) by (simp add: contents_one)
  moreover have "sorted_wrt (\<lambda>a b. \<not> compare a b) []" by simp
  moreover have "endIndex h = 1" using "0.prems"(2) by simp
  ultimately show ?case using "0.prems"(1) by (intro exI [of _ "[]"] exI [of _ h]) simp
next
  case (Suc n)
  have ne: "2 \<le> endIndex h" using Suc.prems(2) by simp
  from pop_correct [OF sw Suc.prems(1) ne]
  obtain h1 where h1: "pop compare h = Some (Some (slot (tree h) 1), h1)"
    "heap_ok compare (tree h1) (endIndex h1)" "Suc (endIndex h1) = endIndex h"
    "contents (tree h) (endIndex h)
       = add_mset (slot (tree h) 1) (contents (tree h1) (endIndex h1))"
    by blast
  have e1: "endIndex h1 = Suc n" using h1(3) Suc.prems(2) by simp
  from Suc.IH [OF h1(2) e1]
  obtain ys where "\<exists>h'. pop_n compare n h1 = Some (map Some ys, h')
       \<and> mset ys = contents (tree h1) (endIndex h1)
       \<and> sorted_wrt (\<lambda>a b. \<not> compare a b) ys
       \<and> endIndex h' = 1 \<and> heap_ok compare (tree h') (endIndex h')" ..
  then obtain h' where all: "pop_n compare n h1 = Some (map Some ys, h')
       \<and> mset ys = contents (tree h1) (endIndex h1)
       \<and> sorted_wrt (\<lambda>a b. \<not> compare a b) ys
       \<and> endIndex h' = 1 \<and> heap_ok compare (tree h') (endIndex h')" ..
  note ys = all [THEN conjunct1] all [THEN conjunct2, THEN conjunct1]
    all [THEN conjunct2, THEN conjunct2, THEN conjunct1]
    all [THEN conjunct2, THEN conjunct2, THEN conjunct2, THEN conjunct1]
    all [THEN conjunct2, THEN conjunct2, THEN conjunct2, THEN conjunct2]
  have least: "\<not> compare (slot (tree h) 1) y" if "y \<in> set ys" for y
  proof -
    from that have "y \<in># mset ys" by simp
    then have "y \<in># contents (tree h1) (endIndex h1)" using ys(2) by simp
    then have "y \<in># contents (tree h) (endIndex h)" using h1(4) by simp
    from contents_member [OF this]
    obtain i where i: "1 \<le> i \<and> i < endIndex h \<and> y = slot (tree h) i" ..
    then show ?thesis using root_minimal [OF sw Suc.prems(1), of i] by simp
  qed
  have "pop_n compare (Suc n) h = Some (map Some (slot (tree h) 1 # ys), h')"
    using h1(1) ys(1) by simp
  moreover have "mset (slot (tree h) 1 # ys) = contents (tree h) (endIndex h)"
    using ys(2) h1(4) by simp
  moreover have "sorted_wrt (\<lambda>a b. \<not> compare a b) (slot (tree h) 1 # ys)"
    using ys(3) least by simp
  ultimately show ?case
    using ys(4,5) by (intro exI [of _ "slot (tree h) 1 # ys"] exI [of _ h']) (simp del: pop_n.simps)
qed

lemma push_pop_singleton:
  "\<exists>h1 h2. push compare x new_MinHeap = Some h1 \<and> pop compare h1 = Some (Some x, h2)
     \<and> heap_length h2 = 0"
proof -
  have 1: "push compare x new_MinHeap = Some \<lparr>tree = [None, Some x], endIndex = 2\<rparr>"
    by (simp add: push_def new_MinHeap_def push_loop.simps js_set_def)
  have 2: "pop compare \<lparr>tree = [None, Some x], endIndex = 2\<rparr>
      = Some (Some x, \<lparr>tree = [None, Some x], endIndex = 1\<rparr>)"
    by (simp add: pop_def pop_loop.simps js_get_def js_set_def)
  show ?thesis
    unfolding 1 by (intro exI conjI, rule refl, rule 2) (simp add: heap_length_def)
qed

lemma push_all_new:
  assumes sw: "strict_weak compare"
  shows "\<exists>h. push_all compare xs new_MinHeap = Some h
       \<and> heap_ok compare (tree h) (endIndex h)
       \<and> endIndex h = Suc (length xs)
       \<and> contents (tree h) (endIndex h) = mset xs"
  using push_all_correct [OF sw heap_ok_new, of xs]
  by (simp add: new_MinHeap_def contents_one)

text \<open>
  C3. For a comparator that is a strict weak order (asymmetric, and "not greater" is
  transitive), pushing any list of elements into a new heap and popping as many times
  never calls the comparator on an empty slot and returns the pushed elements, each as
  often as it was pushed, in non-decreasing order (no popped element is greater than a
  later one); the heap is then empty and a further pop returns \<^verbatim>\<open>undefined\<close>. For every
  comparator, pushing one element into a new heap and popping returns that element and
  leaves a heap of length 0.
\<close>

theorem MinHeap_pops_in_order:
  "(strict_weak compare \<longrightarrow>
      (\<exists>h ys h'. push_all compare xs new_MinHeap = Some h
         \<and> heap_length h = length xs
         \<and> pop_n compare (length xs) h = Some (map Some ys, h')
         \<and> mset ys = mset xs
         \<and> sorted_wrt (\<lambda>a b. \<not> compare a b) ys
         \<and> heap_length h' = 0
         \<and> pop compare h' = Some (None, h')))
   \<and> (\<exists>h1 h2. push compare x new_MinHeap = Some h1 \<and> pop compare h1 = Some (Some x, h2)
         \<and> heap_length h2 = 0)"
proof (intro conjI impI)
  assume sw: "strict_weak compare"
  from push_all_new [OF sw, of xs]
  obtain h where h: "push_all compare xs new_MinHeap = Some h
       \<and> heap_ok compare (tree h) (endIndex h)
       \<and> endIndex h = Suc (length xs)
       \<and> contents (tree h) (endIndex h) = mset xs" ..
  note e = h [THEN conjunct2, THEN conjunct2, THEN conjunct1]
  note c = h [THEN conjunct2, THEN conjunct2, THEN conjunct2]
  note okh = h [THEN conjunct2, THEN conjunct1]
  from pop_n_correct [OF sw okh e]
  obtain ys where "\<exists>h'. pop_n compare (length xs) h = Some (map Some ys, h')
       \<and> mset ys = contents (tree h) (endIndex h)
       \<and> sorted_wrt (\<lambda>a b. \<not> compare a b) ys
       \<and> endIndex h' = 1 \<and> heap_ok compare (tree h') (endIndex h')" ..
  then obtain h' where p: "pop_n compare (length xs) h = Some (map Some ys, h')
       \<and> mset ys = contents (tree h) (endIndex h)
       \<and> sorted_wrt (\<lambda>a b. \<not> compare a b) ys
       \<and> endIndex h' = 1 \<and> heap_ok compare (tree h') (endIndex h')" ..
  have "heap_length h = length xs" using e by (simp add: heap_length_def)
  moreover have "heap_length h' = 0" using p by (simp add: heap_length_def)
  moreover have "pop compare h' = Some (None, h')" using p by (simp add: pop_def)
  moreover have "mset ys = mset xs" using p c by simp
  ultimately show "\<exists>h ys h'. push_all compare xs new_MinHeap = Some h
         \<and> heap_length h = length xs
         \<and> pop_n compare (length xs) h = Some (map Some ys, h')
         \<and> mset ys = mset xs
         \<and> sorted_wrt (\<lambda>a b. \<not> compare a b) ys
         \<and> heap_length h' = 0
         \<and> pop compare h' = Some (None, h')"
    using h p by (intro exI [of _ h] exI [of _ ys] exI [of _ h']) simp
next
  show "\<exists>h1 h2. push compare x new_MinHeap = Some h1 \<and> pop compare h1 = Some (Some x, h2)
         \<and> heap_length h2 = 0"
    by (rule push_pop_singleton)
qed

lemma strict_weak_greater: "strict_weak ((>) :: nat \<Rightarrow> nat \<Rightarrow> bool)"
  by (simp add: strict_weak_def)

lemma pops_example:
  "(case push_all (>) [5, 3, 8, 3, 1 :: nat] new_MinHeap of
      None \<Rightarrow> None
    | Some h \<Rightarrow> map_option fst (pop_n (>) 6 h))
   = Some [Some 1, Some 3, Some 3, Some 5, Some 8, None]"
  by code_simp

theorem MinHeap_pops_in_order_witness:
  "strict_weak ((>) :: nat \<Rightarrow> nat \<Rightarrow> bool)
   \<and> (\<exists>h ys h'. push_all (>) [5, 3, 8, 3, 1 :: nat] new_MinHeap = Some h
         \<and> heap_length h = length [5, 3, 8, 3, 1 :: nat]
         \<and> pop_n (>) (length [5, 3, 8, 3, 1 :: nat]) h = Some (map Some ys, h')
         \<and> mset ys = mset [5, 3, 8, 3, 1]
         \<and> sorted_wrt (\<lambda>a b. \<not> a > b) ys
         \<and> heap_length h' = 0
         \<and> pop (>) h' = Some (None, h'))
   \<and> (case push_all (>) [5, 3, 8, 3, 1 :: nat] new_MinHeap of
        None \<Rightarrow> None
      | Some h \<Rightarrow> map_option fst (pop_n (>) 6 h))
       = Some [Some 1, Some 3, Some 3, Some 5, Some 8, None]"
proof -
  note T = MinHeap_pops_in_order [of "(>) :: nat \<Rightarrow> nat \<Rightarrow> bool" "[5, 3, 8, 3, 1]" 0,
      THEN conjunct1, rule_format, OF strict_weak_greater]
  show ?thesis
    by (intro conjI strict_weak_greater T pops_example)
qed

end
